theory Spec2Isabelle
  imports Complex_Main "HOL-Library.Char_ord" "HOL-Library.List_Lexorder"
    "HOL-Library.Multiset" "HOL-Library.Sublist" "HOL-Library.Word"
begin

section \<open>JavaScript values used by server.js\<close>

text \<open>
  Counts are JavaScript numbers that hold integers (GitHub's \<open>contributionCount\<close>); they
  are modelled as \<open>int\<close>, which is exact as long as the sums stay below \<open>2^53\<close>. Dates are
  strings; \<open>string\<close> is ordered lexicographically by character code, which is the order of
  \<open>Array.prototype.sort\<close> without a comparator.

  A \<open>Map\<close> is the list of its entries in insertion order, with distinct keys.
  \<open>Map.prototype.set\<close> overwrites the value of a key that is present, where it stands, and
  appends a new key at the end.
\<close>

type_synonym jsmap = "(string \<times> int) list"

definition map_keys :: "jsmap \<Rightarrow> string list" where
  "map_keys m = map fst m"

definition map_get :: "jsmap \<Rightarrow> string \<Rightarrow> int option" where
  "map_get m k = map_of m k"

fun map_set :: "jsmap \<Rightarrow> string \<Rightarrow> int \<Rightarrow> jsmap" where
  "map_set [] k v = [(k, v)]"
| "map_set ((k', v') # m) k v =
     (if k' = k then (k, v) # m else (k', v') # map_set m k v)"

text \<open>\<open>x || 0\<close> on a number or \<open>undefined\<close>: \<open>undefined\<close> and \<open>0\<close> are falsy.\<close>

definition or_zero :: "int option \<Rightarrow> int" where
  "or_zero x = (case x of None \<Rightarrow> 0 | Some v \<Rightarrow> if v = 0 then 0 else v)"

text \<open>\<open>x || null\<close> on a string or \<open>undefined\<close>: \<open>undefined\<close> and the empty string are falsy.\<close>

definition or_null :: "string option \<Rightarrow> string option" where
  "or_null x = (case x of None \<Rightarrow> None | Some s \<Rightarrow> if s = [] then None else Some s)"

text \<open>Reading an array at an index: \<open>undefined\<close> out of range.\<close>

definition array_get :: "'a list \<Rightarrow> int \<Rightarrow> 'a option" where
  "array_get xs i = (if 0 \<le> i \<and> i < int (length xs) then Some (xs ! nat i) else None)"

section \<open>mergeMaps\<close>

text \<open>
  The body of the inner loop, \<open>merged.set(date, (merged.get(date) || 0) + count)\<close>, and the
  two nested loops over the maps and over the entries of each map.
\<close>

definition merge_entry :: "jsmap \<Rightarrow> string \<times> int \<Rightarrow> jsmap" where
  "merge_entry merged e =
     (case e of (date, c) \<Rightarrow> map_set merged date (or_zero (map_get merged date) + c))"

definition mergeMaps :: "jsmap list \<Rightarrow> jsmap" where
  "mergeMaps maps = foldl (\<lambda>merged m. foldl merge_entry merged m) [] maps"

text \<open>The count of a date in one series, absence read as zero.\<close>

definition count_at :: "jsmap \<Rightarrow> string \<Rightarrow> int" where
  "count_at m d = (case map_get m d of None \<Rightarrow> 0 | Some c \<Rightarrow> c)"

section \<open>mergedMapToPayload\<close>

record payload =
  start :: "string option"
  end_date :: "string option"
  total :: int
  counts :: jsmap

text \<open>
  \<open>counts\<close> is a plain object filled by \<open>counts[d] = c\<close>; it is the list of its properties,
  written with the same discipline as \<open>map_set\<close>. The loop carries \<open>total\<close> and \<open>counts\<close>.
\<close>

definition payload_step :: "int \<times> jsmap \<Rightarrow> string \<times> int \<Rightarrow> int \<times> jsmap" where
  "payload_step acc e =
     (case acc of (tot, cnts) \<Rightarrow> case e of (d, c) \<Rightarrow> (tot + c, map_set cnts d c))"

definition mergedMapToPayload :: "jsmap \<Rightarrow> payload" where
  "mergedMapToPayload merged =
     (let dates = sort (map_keys merged);
          s = or_null (array_get dates 0);
          e = or_null (array_get dates (int (length dates) - 1));
          acc = foldl payload_step (0, []) merged
      in \<lparr>start = s, end_date = e, total = fst acc, counts = snd acc\<rparr>)"

section \<open>The colour classifier of renderCalendarSVG\<close>

text \<open>
  \<open>maxCount\<close> is an integer, so \<open>maxCount * 0.25\<close>, \<open>maxCount * 0.5\<close> and \<open>maxCount * 0.75\<close>
  are computed exactly in double precision (below \<open>2^51\<close>); the products are taken in the
  rationals and \<open>Math.floor\<close> is the floor function.
\<close>

definition palette :: "string list" where
  "palette = [''#ebedf0'', ''#9be9a8'', ''#40c463'', ''#30a14e'', ''#216e39'']"

definition breaks :: "int \<Rightarrow> int list" where
  "breaks maxCount =
     [max 0 0,
      max 1 \<lfloor>(of_int maxCount :: rat) * 0.25\<rfloor>,
      max 1 \<lfloor>(of_int maxCount :: rat) * 0.5\<rfloor>,
      max 1 \<lfloor>(of_int maxCount :: rat) * 0.75\<rfloor>]"

text \<open>
  The loop of \<open>colorForCount\<close>, from index \<open>i\<close>: the index of the palette entry that is
  returned, \<open>palette.length - 1\<close> when the loop runs to its end.
\<close>

function colorIndex :: "int list \<Rightarrow> int \<Rightarrow> nat \<Rightarrow> nat" where
  "colorIndex bs c i =
     (if i < length bs
      then (if c \<le> bs ! i then i else colorIndex bs c (i + 1))
      else length palette - 1)"
  by pat_completeness auto
termination
  by (relation "measure (\<lambda>(bs, c, i). length bs - i)") auto

declare colorIndex.simps [simp del]

definition colorForCount :: "int \<Rightarrow> int \<Rightarrow> string" where
  "colorForCount maxCount c = palette ! colorIndex (breaks maxCount) c 0"

section \<open>parseUsersParam\<close>

text \<open>
  A string of the query is any JavaScript string, a sequence of 16-bit code units: Express
  decodes the percent-escapes of the URL. \<open>code_units\<close> writes such a string from a literal
  of characters below \<open>U+0100\<close>.
\<close>

type_synonym js_string = "16 word list"

definition code_units :: "string \<Rightarrow> js_string" where
  "code_units s = map (\<lambda>c. of_nat (of_char c)) s"

text \<open>
  \<open>req.query.users\<close> as Express parses it: absent, a string, or (for a repeated or
  bracketed parameter) an array or an object, on which \<open>raw.split\<close> is not a function.
\<close>

datatype query_value = QUndefined | QString js_string | QArray "js_string list" | QObject

datatype js_error = Error string | TypeError | RangeError

text \<open>
  \<open>String.prototype.split\<close> with a one-character separator; the empty string splits into
  one empty piece.
\<close>

fun split :: "'a \<Rightarrow> 'a list \<Rightarrow> 'a list list" where
  "split sep [] = [[]]"
| "split sep (c # cs) =
     (if c = sep then [] # split sep cs
      else (case split sep cs of [] \<Rightarrow> [[c]] | w # ws \<Rightarrow> (c # w) # ws))"

text \<open>
  \<open>String.prototype.trim\<close> removes, at both ends, the code units that are \<open>WhiteSpace\<close> or
  \<open>LineTerminator\<close> in ECMAScript. \<open>WhiteSpace\<close> is tab, vertical tab, form feed, the byte
  order mark \<open>U+FEFF\<close> and the space separators of Unicode (category \<open>Zs\<close>: space, no-break
  space, \<open>U+1680\<close>, \<open>U+2000\<close> to \<open>U+200A\<close>, \<open>U+202F\<close>, \<open>U+205F\<close>, \<open>U+3000\<close>);
  \<open>LineTerminator\<close> is line feed, carriage return, \<open>U+2028\<close> and \<open>U+2029\<close>. All of them
  are single code units.
\<close>

definition is_white_space :: "16 word \<Rightarrow> bool" where
  "is_white_space c \<longleftrightarrow>
     c \<in> set [0x0009, 0x000B, 0x000C, 0xFEFF, 0x0020, 0x00A0, 0x1680, 0x2000, 0x2001, 0x2002,
              0x2003, 0x2004, 0x2005, 0x2006, 0x2007, 0x2008, 0x2009, 0x200A, 0x202F, 0x205F,
              0x3000]"

definition is_line_terminator :: "16 word \<Rightarrow> bool" where
  "is_line_terminator c \<longleftrightarrow> c \<in> set [0x000A, 0x000D, 0x2028, 0x2029]"

definition trim :: "js_string \<Rightarrow> js_string" where
  "trim s =
     (let ws = (\<lambda>c. is_white_space c \<or> is_line_terminator c)
      in rev (dropWhile ws (rev (dropWhile ws s))))"

text \<open>\<open>raw.split(',').map(s => s.trim()).filter(Boolean)\<close>: the empty string is falsy.\<close>

definition users_of :: "js_string \<Rightarrow> js_string list" where
  "users_of raw = filter (\<lambda>s. s \<noteq> []) (map trim (split 0x002C raw))"

definition parseUsersParam :: "query_value \<Rightarrow> js_error + js_string list" where
  "parseUsersParam q =
     (case (case q of QUndefined \<Rightarrow> Some [] | QString s \<Rightarrow> Some s | _ \<Rightarrow> None) of
        None \<Rightarrow> Inl TypeError
      | Some raw \<Rightarrow>
          (let users = users_of raw in
           if length users = 0
           then Inl (Error ''Missing users parameter. Example: ?users=donken,donken-lilly'')
           else if length users > 10
           then Inl (Error ''Too many users requested (limit 10).'')
           else Inr users))"

text \<open>
  The two route handlers call \<open>parseUsersParam\<close> first, inside \<open>try\<close>; an exception goes to
  \<open>catch\<close>, which answers with status 400 and \<open>String(err.message || err)\<close>, as the \<open>error\<close>
  property of a JSON object or inside an SVG \<open>text\<close> element. The rest of the \<open>try\<close> block
  (cache lookup, \<open>aggregateUsers\<close>, rendering, sending the answer) depends on the network and
  the clock: it is the parameter \<open>rest\<close>, working on a server state.
\<close>

definition error_message :: "js_error \<Rightarrow> string" where
  "error_message err =
     (case err of Error msg \<Rightarrow> msg | TypeError \<Rightarrow> ''raw.split is not a function''
      | RangeError \<Rightarrow> ''Invalid time value'')"

datatype 'd response = Sent 'd | Rejected nat string

definition api_combined ::
  "(js_string list \<Rightarrow> 's \<Rightarrow> 'd response \<times> 's) \<Rightarrow> query_value \<Rightarrow> 's \<Rightarrow> 'd response \<times> 's" where
  "api_combined rest q st =
     (case parseUsersParam q of
        Inl err \<Rightarrow> (Rejected 400 (error_message err), st)
      | Inr users \<Rightarrow> rest users st)"

definition api_combined_svg ::
  "(js_string list \<Rightarrow> 's \<Rightarrow> 'd response \<times> 's) \<Rightarrow> query_value \<Rightarrow> 's \<Rightarrow> 'd response \<times> 's" where
  "api_combined_svg rest q st =
     (case parseUsersParam q of
        Inl err \<Rightarrow>
          (Rejected 400
             (''<svg xmlns=\"http://www.w3.org/2000/svg\"><text x=\"10\" y=\"20\" fill=\"red\">Error: ''
              @ error_message err @ ''</text></svg>''), st)
      | Inr users \<Rightarrow> rest users st)"

section \<open>Time values and the Date built-ins\<close>

text \<open>
  A time value is a number of milliseconds since 1970-01-01T00:00:00Z, or \<open>NaN\<close> (an
  invalid Date). A number that can be \<open>NaN\<close> is an \<open>int option\<close>, \<open>None\<close> being \<open>NaN\<close>;
  arithmetic on such numbers propagates \<open>NaN\<close>. The functions below are the abstract
  operations of the ECMAScript specification (Day, TimeWithinDay, DayFromYear, YearFromTime,
  MonthFromTime, DateFromTime, WeekDay, MakeDay, MakeDate, TimeClip) on integers.
\<close>

definition num_add :: "int option \<Rightarrow> int option \<Rightarrow> int option" where
  "num_add a b = (case a of None \<Rightarrow> None | Some x \<Rightarrow> map_option (\<lambda>y. x + y) b)"

definition num_sub :: "int option \<Rightarrow> int option \<Rightarrow> int option" where
  "num_sub a b = (case a of None \<Rightarrow> None | Some x \<Rightarrow> map_option (\<lambda>y. x - y) b)"

definition msPerDay :: int where
  "msPerDay = 24 * 60 * 60 * 1000"

definition Day :: "int \<Rightarrow> int" where
  "Day t = t div msPerDay"

definition TimeWithinDay :: "int \<Rightarrow> int" where
  "TimeWithinDay t = t mod msPerDay"

definition DaysInYear :: "int \<Rightarrow> int" where
  "DaysInYear y =
     (if y mod 4 \<noteq> 0 then 365 else if y mod 100 \<noteq> 0 then 366
      else if y mod 400 \<noteq> 0 then 365 else 366)"

definition DayFromYear :: "int \<Rightarrow> int" where
  "DayFromYear y =
     365 * (y - 1970) + (y - 1969) div 4 - (y - 1901) div 100 + (y - 1601) div 400"

text \<open>
  \<open>YearFromTime(t)\<close> is the largest \<open>y\<close> with \<open>TimeFromYear(y) \<le> t\<close>; it is found by
  stepping from an estimate, up or down, until \<open>DayFromYear y \<le> d < DayFromYear (y + 1)\<close>.
\<close>

function year_search :: "int \<Rightarrow> int \<Rightarrow> int" where
  "year_search d y =
     (if DayFromYear (y + 1) \<le> d then year_search d (y + 1)
      else if d < DayFromYear y then year_search d (y - 1)
      else y)"
  by pat_completeness auto

text \<open>The search terminates: a year has 365 or 366 days.\<close>

lemma div_succ:
  fixes a k :: int
  assumes "0 < k"
  shows "(a + 1) div k = a div k + (if (a + 1) mod k = 0 then 1 else 0)"
proof -
  define q r where "q = a div k" and "r = a mod k"
  have a: "a = k * q + r" and r: "0 \<le> r" "r < k"
    using assms by (simp_all add: q_def r_def)
  show ?thesis
  proof (cases "r + 1 = k")
    case True
    then have "a + 1 = k * (q + 1) + 0" using a by (simp add: algebra_simps)
    then have "(a + 1) div k = q + 1" "(a + 1) mod k = 0"
      using assms by (auto intro: int_div_pos_eq int_mod_pos_eq)
    then show ?thesis by (simp add: q_def)
  next
    case False
    then have "a + 1 = k * q + (r + 1)" "0 \<le> r + 1" "r + 1 < k" using a r by auto
    then have "(a + 1) div k = q" "(a + 1) mod k = r + 1"
      by (auto intro: int_div_pos_eq int_mod_pos_eq)
    then show ?thesis using r by (simp add: q_def)
  qed
qed

lemma leap4: "(y - 1968) div 4 = (y - 1969) div 4 + (if 4 dvd y then 1 else 0)" for y :: int
proof -
  have "(y - 1968) mod 4 = 0 \<longleftrightarrow> 4 dvd y"
    by (simp add: mod_eq_0_iff_dvd dvd_diff_left_iff)
  then show ?thesis using div_succ[of 4 "y - 1969"] by simp
qed

lemma leap100: "(y - 1900) div 100 = (y - 1901) div 100 + (if 100 dvd y then 1 else 0)" for y :: int
proof -
  have "(y - 1900) mod 100 = 0 \<longleftrightarrow> 100 dvd y"
    by (simp add: mod_eq_0_iff_dvd dvd_diff_left_iff)
  then show ?thesis using div_succ[of 100 "y - 1901"] by simp
qed

lemma leap400: "(y - 1600) div 400 = (y - 1601) div 400 + (if 400 dvd y then 1 else 0)" for y :: int
proof -
  have "(y - 1600) mod 400 = 0 \<longleftrightarrow> 400 dvd y"
    by (simp add: mod_eq_0_iff_dvd dvd_diff_left_iff)
  then show ?thesis using div_succ[of 400 "y - 1601"] by simp
qed

lemma DaysInYear_dvd:
  "DaysInYear y = (if \<not> 4 dvd y then 365 else if \<not> 100 dvd y then 366
      else if \<not> 400 dvd y then 365 else 366)"
  by (simp add: DaysInYear_def mod_eq_0_iff_dvd)

lemma DayFromYear_step: "DayFromYear (y + 1) = DayFromYear y + DaysInYear y"
proof -
  have a: "400 dvd y \<Longrightarrow> 100 dvd y" by (rule dvd_trans[of 100 400]) simp_all
  have b: "100 dvd y \<Longrightarrow> 4 dvd y" by (rule dvd_trans[of 4 100]) simp_all
  have "DayFromYear (y + 1) =
    365 * (y - 1969) + (y - 1968) div 4 - (y - 1900) div 100 + (y - 1600) div 400"
    by (simp add: DayFromYear_def)
  then show ?thesis
    unfolding leap4 leap100 leap400 DaysInYear_dvd DayFromYear_def using a b by auto
qed

lemma DaysInYear_bounds: "365 \<le> DaysInYear y" "DaysInYear y \<le> 366"
  by (simp_all add: DaysInYear_def)

termination year_search
proof (relation "measure (\<lambda>(d, y). if d < DayFromYear y then nat (DayFromYear y - d) + 366
                                    else nat (d - DayFromYear y))")
  show "wf (measure (\<lambda>(d, y). if d < DayFromYear y then nat (DayFromYear y - d) + 366
                                    else nat (d - DayFromYear y)))" by simp
next
  fix d y :: int
  assume "DayFromYear (y + 1) \<le> d"
  then show "((d, y + 1), (d, y)) \<in> measure (\<lambda>(d, y). if d < DayFromYear y then nat (DayFromYear y - d) + 366
                                    else nat (d - DayFromYear y))"
    using DayFromYear_step[of y] DaysInYear_bounds[of y] by auto
next
  fix d y :: int
  assume "\<not> DayFromYear (y + 1) \<le> d" "d < DayFromYear y"
  then show "((d, y - 1), (d, y)) \<in> measure (\<lambda>(d, y). if d < DayFromYear y then nat (DayFromYear y - d) + 366
                                    else nat (d - DayFromYear y))"
    using DayFromYear_step[of "y - 1"] DaysInYear_bounds[of "y - 1"] by auto
qed

declare year_search.simps [simp del]

definition YearFromTime :: "int \<Rightarrow> int" where
  "YearFromTime t = year_search (Day t) (1970 + Day t div 365)"

definition DayWithinYear :: "int \<Rightarrow> int" where
  "DayWithinYear t = Day t - DayFromYear (YearFromTime t)"

definition InLeapYear :: "int \<Rightarrow> int" where
  "InLeapYear t = (if DaysInYear (YearFromTime t) = 365 then 0 else 1)"

definition MonthFromTime :: "int \<Rightarrow> int" where
  "MonthFromTime t =
     (let d = DayWithinYear t; l = InLeapYear t in
      if d < 31 then 0
      else if d < 59 + l then 1
      else if d < 90 + l then 2
      else if d < 120 + l then 3
      else if d < 151 + l then 4
      else if d < 181 + l then 5
      else if d < 212 + l then 6
      else if d < 243 + l then 7
      else if d < 273 + l then 8
      else if d < 304 + l then 9
      else if d < 334 + l then 10
      else 11)"

definition DateFromTime :: "int \<Rightarrow> int" where
  "DateFromTime t =
     (let d = DayWithinYear t; l = InLeapYear t; m = MonthFromTime t in
      if m = 0 then d + 1
      else if m = 1 then d - 30
      else if m = 2 then d - 58 - l
      else if m = 3 then d - 89 - l
      else if m = 4 then d - 119 - l
      else if m = 5 then d - 150 - l
      else if m = 6 then d - 180 - l
      else if m = 7 then d - 211 - l
      else if m = 8 then d - 242 - l
      else if m = 9 then d - 272 - l
      else if m = 10 then d - 303 - l
      else d - 333 - l)"

definition WeekDay :: "int \<Rightarrow> int" where
  "WeekDay t = (Day t + 4) mod 7"

definition HourFromTime :: "int \<Rightarrow> int" where
  "HourFromTime t = (t div 3600000) mod 24"

definition MinFromTime :: "int \<Rightarrow> int" where
  "MinFromTime t = (t div 60000) mod 60"

definition SecFromTime :: "int \<Rightarrow> int" where
  "SecFromTime t = (t div 1000) mod 60"

definition msFromTime :: "int \<Rightarrow> int" where
  "msFromTime t = t mod 1000"

text \<open>
  \<open>MakeDay(year, month, date)\<close> on integers: the day number of the first day of month
  \<open>month mod 12\<close> of year \<open>year + floor(month / 12)\<close>, plus \<open>date - 1\<close>.
\<close>

definition month_start :: "int \<Rightarrow> int \<Rightarrow> int" where
  "month_start y mn =
     (let l = (if DaysInYear y = 365 then 0 else 1) in
      [0, 31, 59 + l, 90 + l, 120 + l, 151 + l, 181 + l, 212 + l, 243 + l, 273 + l,
       304 + l, 334 + l] ! nat mn)"

definition MakeDay :: "int \<Rightarrow> int \<Rightarrow> int \<Rightarrow> int" where
  "MakeDay year month date =
     (let ym = year + month div 12; mn = month mod 12
      in DayFromYear ym + month_start ym mn + date - 1)"

definition MakeTime :: "int \<Rightarrow> int \<Rightarrow> int \<Rightarrow> int \<Rightarrow> int" where
  "MakeTime hour minute sec ms = hour * 3600000 + minute * 60000 + sec * 1000 + ms"

definition MakeDate :: "int \<Rightarrow> int \<Rightarrow> int" where
  "MakeDate day time = day * msPerDay + time"

definition TimeClip :: "int \<Rightarrow> int option" where
  "TimeClip t = (if \<bar>t\<bar> > 8640000000000000 then None else Some t)"

text \<open>
  \<open>Date.UTC(year, month, date)\<close>, \<open>new Date(value)\<close> on a number, and the methods of a Date
  used by the renderer, on its time value; the setters give the new time value.
\<close>

definition Date_UTC :: "int option \<Rightarrow> int option \<Rightarrow> int option \<Rightarrow> int option" where
  "Date_UTC year month date =
     (case (year, month, date) of
        (Some y, Some m, Some dt) \<Rightarrow>
          (let yr = (if 0 \<le> y \<and> y \<le> 99 then 1900 + y else y)
           in TimeClip (MakeDate (MakeDay yr m dt) (MakeTime 0 0 0 0)))
      | _ \<Rightarrow> None)"

definition new_Date :: "int option \<Rightarrow> int option" where
  "new_Date v = (case v of None \<Rightarrow> None | Some t \<Rightarrow> TimeClip t)"

definition getUTCDay :: "int option \<Rightarrow> int option" where
  "getUTCDay tv = map_option WeekDay tv"

definition getUTCDate :: "int option \<Rightarrow> int option" where
  "getUTCDate tv = map_option DateFromTime tv"

definition setUTCDate :: "int option \<Rightarrow> int option \<Rightarrow> int option" where
  "setUTCDate tv date =
     (case (tv, date) of
        (Some t, Some dt) \<Rightarrow>
          TimeClip (MakeDate (MakeDay (YearFromTime t) (MonthFromTime t) dt) (TimeWithinDay t))
      | _ \<Rightarrow> None)"

definition setUTCHours :: "int option \<Rightarrow> int \<Rightarrow> int \<Rightarrow> int \<Rightarrow> int \<Rightarrow> int option" where
  "setUTCHours tv hour minute sec ms =
     (case tv of None \<Rightarrow> None
      | Some t \<Rightarrow> TimeClip (MakeDate (Day t) (MakeTime hour minute sec ms)))"

text \<open>Decimal digits of a natural number, and a number padded with zeros to a width.\<close>

fun digits :: "nat \<Rightarrow> string" where
  "digits n = (if n < 10 then [''0123456789'' ! n]
               else digits (n div 10) @ [''0123456789'' ! (n mod 10)])"

declare digits.simps [simp del]

definition pad :: "nat \<Rightarrow> int \<Rightarrow> string" where
  "pad w n = (let ds = digits (nat n) in replicate (w - length ds) CHR ''0'' @ ds)"

text \<open>A number in a template literal: \<open>NaN\<close>, or the decimal digits with a minus sign.\<close>

definition show_int :: "int \<Rightarrow> string" where
  "show_int n = (if n < 0 then ''-'' @ digits (nat (- n)) else digits (nat n))"

definition show_num :: "int option \<Rightarrow> string" where
  "show_num v = (case v of None \<Rightarrow> ''NaN'' | Some n \<Rightarrow> show_int n)"

text \<open>
  \<open>Date.prototype.toISOString\<close>: a \<open>RangeError\<close> on an invalid Date; years outside
  \<open>0..9999\<close> are written with a sign and six digits.
\<close>

definition year_string :: "int \<Rightarrow> string" where
  "year_string y =
     (if 0 \<le> y \<and> y \<le> 9999 then pad 4 y
      else (if y < 0 then ''-'' else ''+'') @ pad 6 \<bar>y\<bar>)"

definition toISOString :: "int option \<Rightarrow> js_error + string" where
  "toISOString tv =
     (case tv of None \<Rightarrow> Inl RangeError
      | Some t \<Rightarrow>
          Inr (year_string (YearFromTime t) @ ''-'' @ pad 2 (MonthFromTime t + 1) @ ''-''
               @ pad 2 (DateFromTime t) @ ''T'' @ pad 2 (HourFromTime t) @ '':''
               @ pad 2 (MinFromTime t) @ '':'' @ pad 2 (SecFromTime t) @ ''.''
               @ pad 3 (msFromTime t) @ ''Z''))"

text \<open>
  \<open>Number(s)\<close> on the strings a date is made of: the empty string is \<open>0\<close> and a string of
  decimal digits is its value (a value that JavaScript would round, beyond \<open>2^53\<close>, is
  far outside the range of time values either way). Every other string is taken to \<open>NaN\<close>;
  this leaves out the signs, white space, fractions, exponents and radix prefixes that
  \<open>Number\<close> also reads and that the pieces of a date \<open>YYYY-MM-DD\<close> never contain.
\<close>

definition is_digit :: "char \<Rightarrow> bool" where
  "is_digit c \<longleftrightarrow> c \<in> set ''0123456789''"

definition digit_value :: "char \<Rightarrow> int" where
  "digit_value c = int (of_char c) - 48"

definition Number :: "string \<Rightarrow> int option" where
  "Number s =
     (if s = [] then Some 0
      else if list_all is_digit s then Some (foldl (\<lambda>n c. 10 * n + digit_value c) 0 s)
      else None)"

text \<open>An element of an array of numbers, \<open>undefined\<close> (which \<open>Date.UTC\<close> reads as \<open>NaN\<close>)
  when it is missing.\<close>

definition num_at :: "int option list \<Rightarrow> int \<Rightarrow> int option" where
  "num_at xs i = (case array_get xs i of None \<Rightarrow> None | Some v \<Rightarrow> v)"

text \<open>An element of an array of strings in a template literal.\<close>

definition str_at :: "string list \<Rightarrow> int \<Rightarrow> string" where
  "str_at xs i = (case array_get xs i of None \<Rightarrow> ''undefined'' | Some s \<Rightarrow> s)"

section \<open>renderCalendarSVG\<close>

definition parseDate :: "string \<Rightarrow> int option" where
  "parseDate s =
     (let parts = map Number (split CHR ''-'' s);
          y = num_at parts 0; m = num_at parts 1; d = num_at parts 2
      in new_Date (Date_UTC y (num_sub m (Some 1)) d))"

text \<open>
  Lines 132 to 137: \<open>calendarStart\<close> is a copy of \<open>startDate\<close> moved back by its weekday with
  \<open>setUTCDate\<close> and set to midnight with \<open>setUTCHours\<close>.
\<close>

definition calendarStart_of :: "int option \<Rightarrow> int option" where
  "calendarStart_of startDate =
     (let startDow = getUTCDay startDate;
          copy = new_Date startDate;
          moved = setUTCDate copy (num_sub (getUTCDate startDate) startDow)
      in setUTCHours moved 0 0 0 0)"

text \<open>
  Lines 141 and 142. The difference of two Dates is the difference of their time values;
  the quotients are taken in the rationals, \<open>Math.round\<close> rounds half up.
\<close>

definition Math_round :: "rat \<Rightarrow> int" where
  "Math_round x = \<lfloor>x + 1 / 2\<rfloor>"

definition totalDays_of :: "int option \<Rightarrow> int option \<Rightarrow> int option" where
  "totalDays_of calendarStart lastDate =
     map_option (\<lambda>diff. Math_round (of_int diff / of_int msPerDay) + 1)
       (num_sub lastDate calendarStart)"

definition weeks_of :: "int option \<Rightarrow> int option" where
  "weeks_of totalDays = map_option (\<lambda>n. \<lceil>(of_int n :: rat) / 7\<rceil>) totalDays"

definition rectSize :: int where "rectSize = 12"
definition gap :: int where "gap = 4"
definition paddingTop :: int where "paddingTop = 22"
definition paddingLeft :: int where "paddingLeft = 36"
definition padding :: int where "padding = 8"

definition width_of :: "int option \<Rightarrow> int option" where
  "width_of weeks = map_option (\<lambda>w. paddingLeft + padding + w * (rectSize + gap)) weeks"

definition height :: int where
  "height = paddingTop + padding + 7 * (rectSize + gap)"

text \<open>\<open>Math.max(...vals, 1)\<close> over the values of \<open>counts\<close>.\<close>

definition maxCount_of :: "jsmap \<Rightarrow> int" where
  "maxCount_of dateToCount = foldr max (map snd dateToCount) 1"

text \<open>
  The loops \<open>for (let i = 0; i <= totalDays - 1; i++)\<close> run over these indices; none when
  \<open>totalDays\<close> is \<open>NaN\<close>.
\<close>

definition day_indices :: "int option \<Rightarrow> int list" where
  "day_indices totalDays = (case totalDays of None \<Rightarrow> [] | Some n \<Rightarrow> [0..n - 1])"

text \<open>A loop whose body may throw: the state after the last index, or the first error.\<close>

fun for_each :: "('s \<Rightarrow> int \<Rightarrow> js_error + 's) \<Rightarrow> 's \<Rightarrow> int list \<Rightarrow> js_error + 's" where
  "for_each body st [] = Inr st"
| "for_each body st (i # is) =
     (case body st i of Inl err \<Rightarrow> Inl err | Inr st' \<Rightarrow> for_each body st' is)"

text \<open>
  \<open>new Date(calendarStart.getTime() + i * msPerDay).toISOString().slice(0, 10)\<close>, the first
  two statements of both loop bodies.
\<close>

definition date_at :: "int option \<Rightarrow> int \<Rightarrow> int option" where
  "date_at calendarStart i = new_Date (num_add calendarStart (Some (i * msPerDay)))"

definition iso_at :: "int option \<Rightarrow> int \<Rightarrow> js_error + string" where
  "iso_at calendarStart i = map_sum id (take 10) (toISOString (date_at calendarStart i))"

text \<open>
  Lines 171 to 182: \<open>monthPositions\<close> is an object, the list of its properties in insertion
  order; \<open>key in monthPositions\<close> is read on the own properties.
\<close>

definition monthKey_of :: "string \<Rightarrow> string" where
  "monthKey_of isoDate =
     (let parts = split CHR ''-'' isoDate in str_at parts 0 @ ''-'' @ str_at parts 1)"

definition month_step :: "int option \<Rightarrow> jsmap \<Rightarrow> int \<Rightarrow> js_error + jsmap" where
  "month_step calendarStart monthPositions i =
     (case iso_at calendarStart i of
        Inl err \<Rightarrow> Inl err
      | Inr isoDate \<Rightarrow>
          (let monthKey = monthKey_of isoDate in
           if monthKey \<notin> set (map_keys monthPositions)
           then Inr (map_set monthPositions monthKey \<lfloor>(of_int i :: rat) / 7\<rfloor>)
           else Inr monthPositions))"

definition monthPositions_of :: "int option \<Rightarrow> int option \<Rightarrow> js_error + jsmap" where
  "monthPositions_of calendarStart totalDays =
     for_each (month_step calendarStart) [] (day_indices totalDays)"

text \<open>Lines 193 to 204: the values of one iteration, the \<open>rect\<close> element written for them
  and the loop that appends the elements to \<open>rects\<close>.\<close>

record cell =
  cell_iso :: string
  cell_count :: int
  cell_dayOfWeek :: "int option"
  cell_weekIndex :: int
  cell_x :: int
  cell_y :: "int option"
  cell_fill :: string

definition cell_at :: "int option \<Rightarrow> jsmap \<Rightarrow> int \<Rightarrow> int \<Rightarrow> js_error + cell" where
  "cell_at calendarStart dateToCount maxCount i =
     (case iso_at calendarStart i of
        Inl err \<Rightarrow> Inl err
      | Inr isoDate \<Rightarrow>
          (let c = or_zero (map_get dateToCount isoDate);
               dayOfWeek = getUTCDay (date_at calendarStart i);
               weekIndex = \<lfloor>(of_int i :: rat) / 7\<rfloor>
           in Inr \<lparr>cell_iso = isoDate, cell_count = c, cell_dayOfWeek = dayOfWeek,
                   cell_weekIndex = weekIndex,
                   cell_x = paddingLeft + padding + weekIndex * (rectSize + gap),
                   cell_y = num_add (Some (paddingTop + padding))
                              (map_option (\<lambda>d. d * (rectSize + gap)) dayOfWeek),
                   cell_fill = colorForCount maxCount c\<rparr>))"

definition rect_svg :: "cell \<Rightarrow> string" where
  "rect_svg c =
     ''<rect x=\"'' @ show_int (cell_x c) @ ''\" y=\"'' @ show_num (cell_y c)
     @ ''\" width=\"'' @ show_int rectSize @ ''\" height=\"'' @ show_int rectSize
     @ ''\" rx=\"2\" ry=\"2\" fill=\"'' @ cell_fill c
     @ ''\" stroke=\"#e6e6e6\" stroke-width=\"0.5\"><title>''
     @ show_int (cell_count c) @ '' contributions on '' @ cell_iso c
     @ ''</title></rect>'' @ [CHR 0x0A]"

definition rects_of :: "int option \<Rightarrow> jsmap \<Rightarrow> int \<Rightarrow> int option \<Rightarrow> js_error + string" where
  "rects_of calendarStart dateToCount maxCount totalDays =
     for_each (\<lambda>rects i. map_sum id (\<lambda>c. rects @ rect_svg c)
                 (cell_at calendarStart dateToCount maxCount i))
       [] (day_indices totalDays)"

text \<open>Lines 207 to 221: one \<open>text\<close> element per month key, the keys sorted.\<close>

definition monthNames :: "string list" where
  "monthNames = [''Jan'', ''Feb'', ''Mar'', ''Apr'', ''May'', ''Jun'', ''Jul'', ''Aug'', ''Sep'',
                 ''Oct'', ''Nov'', ''Dec'']"

record month_label =
  label_key :: string
  label_weekIndex :: "int option"
  label_x :: "int option"
  label_text :: string

definition month_label_of :: "jsmap \<Rightarrow> string \<Rightarrow> month_label" where
  "month_label_of monthPositions mk =
     (let m = num_at (map Number (split CHR ''-'' mk)) 1;
          monthIndex = num_sub m (Some 1);
          label = (case monthIndex of None \<Rightarrow> ''undefined''
                   | Some k \<Rightarrow> str_at monthNames k);
          weekIndex = map_get monthPositions mk;
          x = num_add (Some (paddingLeft + padding))
                (map_option (\<lambda>w. w * (rectSize + gap)) weekIndex)
      in \<lparr>label_key = mk, label_weekIndex = weekIndex, label_x = x, label_text = label\<rparr>)"

definition month_labels_of :: "jsmap \<Rightarrow> month_label list" where
  "month_labels_of monthPositions =
     map (month_label_of monthPositions) (sort (map_keys monthPositions))"

definition month_label_svg :: "month_label \<Rightarrow> string" where
  "month_label_svg l =
     ''<text x=\"'' @ show_num (label_x l) @ ''\" y=\"'' @ show_int (max 12 (paddingTop - 6))
     @ ''\" font-family=\"Arial, Helvetica, sans-serif\" font-size=\"11\" fill=\"#6a737d\">''
     @ label_text l @ ''</text>'' @ [CHR 0x0A]"

text \<open>Lines 185 to 189 and 224 to 229: the three weekday labels.\<close>

definition weekdayLabels :: "(int \<times> string) list" where
  "weekdayLabels = [(1, ''Mon''), (3, ''Wed''), (5, ''Fri'')]"

definition weekday_label_svg :: "int \<times> string \<Rightarrow> string" where
  "weekday_label_svg wl =
     (case wl of (dow, label) \<Rightarrow>
        ''<text x=\"'' @ show_int (paddingLeft - 6) @ ''\" y=\"''
        @ show_int (paddingTop + padding + dow * (rectSize + gap) + rectSize div 2 + 4)
        @ ''\" text-anchor=\"end\" font-family=\"Arial, Helvetica, sans-serif\" font-size=\"11\" fill=\"#6a737d\">''
        @ label @ ''</text>'' @ [CHR 0x0A])"

text \<open>A falsy \<open>start\<close> or \<open>end\<close> is \<open>null\<close> or the empty string.\<close>

definition falsy :: "string option \<Rightarrow> bool" where
  "falsy s \<longleftrightarrow> (case s of None \<Rightarrow> True | Some v \<Rightarrow> v = [])"

definition str_of :: "string option \<Rightarrow> string" where
  "str_of s = (case s of None \<Rightarrow> [] | Some v \<Rightarrow> v)"

definition empty_svg :: string where
  "empty_svg = ''<svg xmlns=\"http://www.w3.org/2000/svg\"></svg>''"

text \<open>Lines 232 to 241, the template literal of the document, and the whole function.\<close>

definition svg_document :: "int option \<Rightarrow> string \<Rightarrow> string \<Rightarrow> string \<Rightarrow> string \<Rightarrow> string" where
  "svg_document width usersLabel monthLabelsSvg weekdayLabelsSvg rects =
     ''<?xml version=\"1.0\" encoding=\"UTF-8\"?>'' @ [CHR 0x0A]
     @ ''<svg xmlns=\"http://www.w3.org/2000/svg\" width=\"'' @ show_num width
     @ ''\" height=\"'' @ show_int height @ ''\" viewBox=\"0 0 '' @ show_num width
     @ '' '' @ show_int height
     @ ''\" role=\"img\" aria-label=\"Combined contributions calendar for ''
     @ usersLabel @ ''\">'' @ [CHR 0x0A]
     @ ''  <rect width=\"100%\" height=\"100%\" fill=\"transparent\"/>'' @ [CHR 0x0A]
     @ ''  <!-- Month labels -->'' @ [CHR 0x0A]
     @ ''  '' @ monthLabelsSvg @ [CHR 0x0A]
     @ ''  <!-- Weekday labels -->'' @ [CHR 0x0A]
     @ ''  '' @ weekdayLabelsSvg @ [CHR 0x0A]
     @ ''  <!-- Contribution squares -->'' @ [CHR 0x0A]
     @ ''  '' @ rects @ [CHR 0x0A]
     @ ''</svg>''"

definition renderCalendarSVG :: "payload \<Rightarrow> string \<Rightarrow> js_error + string" where
  "renderCalendarSVG mergedPayload usersLabel =
     (if falsy (start mergedPayload) \<or> falsy (end_date mergedPayload) then Inr empty_svg
      else
        let dateToCount = counts mergedPayload;
            startDate = parseDate (str_of (start mergedPayload));
            calendarStart = calendarStart_of startDate;
            lastDate = parseDate (str_of (end_date mergedPayload));
            totalDays = totalDays_of calendarStart lastDate;
            weeks = weeks_of totalDays;
            width = width_of weeks;
            maxCount = maxCount_of dateToCount
        in case monthPositions_of calendarStart totalDays of
             Inl err \<Rightarrow> Inl err
           | Inr monthPositions \<Rightarrow>
               (case rects_of calendarStart dateToCount maxCount totalDays of
                  Inl err \<Rightarrow> Inl err
                | Inr rects \<Rightarrow>
                    Inr (svg_document width usersLabel
                          (concat (map month_label_svg (month_labels_of monthPositions)))
                          (concat (map weekday_label_svg weekdayLabels))
                          rects)))"

section \<open>Auxiliary notions\<close>

text \<open>The sum of the counts of all entries of a list of entries that carry the key \<open>d\<close>.\<close>

definition entries_sum :: "jsmap \<Rightarrow> string \<Rightarrow> int" where
  "entries_sum m d = sum_list (map snd (filter (\<lambda>e. fst e = d) m))"

text \<open>The month key that the loop of lines 172 to 182 computes at index \<open>i\<close>.\<close>

definition month_key_at :: "int option \<Rightarrow> int \<Rightarrow> string" where
  "month_key_at calendarStart i =
     (case iso_at calendarStart i of Inl err \<Rightarrow> [] | Inr isoDate \<Rightarrow> monthKey_of isoDate)"

text \<open>The indices of a list at which a key occurs that is not in \<open>seen\<close> and has not
  occurred at an earlier index of the list.\<close>

fun firsts :: "(int \<Rightarrow> string) \<Rightarrow> string set \<Rightarrow> int list \<Rightarrow> int list" where
  "firsts K seen [] = []"
| "firsts K seen (i # ixs) =
     (if K i \<in> seen then firsts K seen ixs else i # firsts K (insert (K i) seen) ixs)"

section \<open>Properties of Map.set\<close>

lemma map_of_map_set: "map_of (map_set m k v) = (map_of m)(k \<mapsto> v)"
  by (induction m k v rule: map_set.induct) auto

lemma keys_map_set: "set (map fst (map_set m k v)) = insert k (set (map fst m))"
  by (induction m k v rule: map_set.induct) auto

lemma distinct_map_set: "distinct (map fst m) \<Longrightarrow> distinct (map fst (map_set m k v))"
  by (induction m k v rule: map_set.induct) (auto simp: keys_map_set[simplified])

lemma map_set_fresh: "k \<notin> fst ` set m \<Longrightarrow> map_set m k v = m @ [(k, v)]"
  by (induction m k v rule: map_set.induct) auto

lemma or_zero_eq: "or_zero x = (case x of None \<Rightarrow> 0 | Some v \<Rightarrow> v)"
  by (simp add: or_zero_def split: option.splits)

section \<open>Properties of mergeMaps\<close>

lemma map_of_merge_entry:
  "map_of (merge_entry acc (k, c)) = (map_of acc)(k \<mapsto> or_zero (map_of acc k) + c)"
  by (simp add: merge_entry_def map_of_map_set map_get_def)

lemma keys_merge_entry: "fst ` set (merge_entry acc (k, c)) = insert k (fst ` set acc)"
  using keys_map_set[of acc k] by (simp add: merge_entry_def)

lemma map_of_absent: "d \<notin> fst ` set acc \<Longrightarrow> map_of acc d = None"
  by (simp add: map_of_eq_None_iff)

lemma entries_sum_absent: "d \<notin> fst ` set m \<Longrightarrow> entries_sum m d = 0"
  by (induction m) (auto simp: entries_sum_def)

text \<open>The inner loop, from any accumulator.\<close>

lemma fold_merge_entry:
  "map_of (foldl merge_entry acc m) d =
     (if d \<in> fst ` set acc \<union> fst ` set m
      then Some (or_zero (map_of acc d) + entries_sum m d) else None)"
proof (induction m arbitrary: acc)
  case Nil
  show ?case
    by (cases "map_of acc d")
      (auto simp: entries_sum_def or_zero_eq map_of_eq_None_iff dest: map_of_SomeD
        intro: rev_image_eqI)
next
  case (Cons e m)
  obtain k c where e: "e = (k, c)" by (cases e)
  show ?case
    unfolding foldl_Cons e Cons.IH keys_merge_entry map_of_merge_entry
    by (auto simp: entries_sum_def or_zero_eq split: option.splits)
qed

lemma fold_merge_keys:
  "fst ` set (foldl merge_entry acc m) = fst ` set acc \<union> fst ` set m"
proof (induction m arbitrary: acc)
  case Nil
  show ?case by simp
next
  case (Cons e m)
  obtain k c where e: "e = (k, c)" by (cases e)
  show ?case unfolding foldl_Cons e Cons.IH keys_merge_entry by auto
qed

lemma fold_merge_distinct:
  "distinct (map fst acc) \<Longrightarrow> distinct (map fst (foldl merge_entry acc m))"
  by (induction m arbitrary: acc) (auto simp: merge_entry_def distinct_map_set)

text \<open>The outer loop, from any accumulator.\<close>

lemma mergeMaps_gen:
  "map_of (foldl (\<lambda>merged m. foldl merge_entry merged m) acc maps) d =
     (if d \<in> fst ` set acc \<union> (\<Union>m\<in>set maps. fst ` set m)
      then Some (or_zero (map_of acc d) + (\<Sum>m\<leftarrow>maps. entries_sum m d)) else None)"
proof (induction maps arbitrary: acc)
  case Nil
  show ?case
    by (cases "map_of acc d")
      (auto simp: or_zero_eq map_of_eq_None_iff dest: map_of_SomeD intro: rev_image_eqI)
next
  case (Cons m maps)
  show ?case
    unfolding foldl_Cons Cons.IH fold_merge_keys fold_merge_entry
    using entries_sum_absent[of d m] map_of_absent[of d acc] by (auto simp: or_zero_eq)
qed

lemma entries_sum_distinct:
  "distinct (map fst m) \<Longrightarrow> entries_sum m d = count_at m d"
proof (induction m)
  case Nil
  show ?case by (simp add: entries_sum_def count_at_def map_get_def)
next
  case (Cons e m)
  then show ?case
    using entries_sum_absent[of d m]
    by (cases e) (auto simp: entries_sum_def count_at_def map_get_def)
qed

lemma mergeMaps_distinct: "distinct (map fst (mergeMaps maps))"
proof -
  have "distinct (map fst acc) \<Longrightarrow>
    distinct (map fst (foldl (\<lambda>merged m. foldl merge_entry merged m) acc maps))" for acc
    by (induction maps arbitrary: acc) (auto simp: fold_merge_distinct)
  then show ?thesis by (simp add: mergeMaps_def)
qed

lemma sum_list_cong_map:
  "(\<And>x. x \<in> set xs \<Longrightarrow> f x = g x) \<Longrightarrow> (\<Sum>x\<leftarrow>xs. f x) = (\<Sum>x\<leftarrow>xs. (g x :: int))"
  by (induction xs) auto

text \<open>
  C1. For every list of series (Maps, so with distinct keys), the merged series holds at
  each date that occurs in some input the sum over all inputs of that date's count, a
  missing date counting as zero; a date that occurs in no input is not a key of the
  result; the result is again a Map; no input series gives the empty series.
\<close>

theorem mergeMaps_pointwise_sum:
  assumes "\<forall>m \<in> set maps. distinct (map_keys m)"
  shows "map_get (mergeMaps maps) d =
           (if \<exists>m \<in> set maps. d \<in> set (map_keys m)
            then Some (\<Sum>m\<leftarrow>maps. count_at m d) else None)
         \<and> distinct (map_keys (mergeMaps maps))
         \<and> mergeMaps [] = []"
proof -
  have "(\<Sum>m\<leftarrow>maps. entries_sum m d) = (\<Sum>m\<leftarrow>maps. count_at m d)"
    using assms by (intro sum_list_cong_map entries_sum_distinct) (simp add: map_keys_def)
  then show ?thesis
    using mergeMaps_gen[of "[]" maps d] mergeMaps_distinct[of maps]
    by (auto simp: mergeMaps_def map_get_def map_keys_def or_zero_def)
qed

theorem mergeMaps_pointwise_sum_witness:
  "distinct (map_keys [(''2024-01-01'', 3)])
   \<and> distinct (map_keys [(''2024-01-01'', 2), (''2024-01-02'', 1)])
   \<and> map_get (mergeMaps [[(''2024-01-01'', 3)], [(''2024-01-01'', 2), (''2024-01-02'', 1)]])
       ''2024-01-01'' = Some 5
   \<and> map_get (mergeMaps [[(''2024-01-01'', 3)], [(''2024-01-01'', 2), (''2024-01-02'', 1)]])
       ''2024-01-03'' = None"
proof -
  let ?maps = "[[(''2024-01-01'', 3::int)], [(''2024-01-01'', 2), (''2024-01-02'', 1)]]"
  have d: "\<forall>m \<in> set ?maps. distinct (map_keys m)" by (simp add: map_keys_def)
  show ?thesis
    using d mergeMaps_pointwise_sum[OF d, of "''2024-01-01''"]
      mergeMaps_pointwise_sum[OF d, of "''2024-01-03''"]
    by (simp add: map_keys_def count_at_def map_get_def)
qed

text \<open>
  C3. Merging is independent of the order of the inputs: two lists of series that are
  permutations of each other merge to the same mapping from dates to counts, with the same
  set of entries; in particular \<open>merge([A, B])\<close> and \<open>merge([B, A])\<close> agree.
\<close>

theorem mergeMaps_order_independent:
  assumes "mset maps = mset maps'"
  shows "map_get (mergeMaps maps) = map_get (mergeMaps maps')
         \<and> set (mergeMaps maps) = set (mergeMaps maps')
         \<and> map_get (mergeMaps [A, B]) = map_get (mergeMaps [B, A])"
proof -
  have perm: "map_of (mergeMaps xs) = map_of (mergeMaps ys)" if "mset xs = mset ys" for xs ys
  proof
    fix d
    have s: "set xs = set ys" using that by (rule mset_eq_setD)
    have "(\<Sum>m\<leftarrow>xs. entries_sum m d) = (\<Sum>m\<leftarrow>ys. entries_sum m d)"
      using that by (metis mset_map sum_mset_sum_list)
    then show "map_of (mergeMaps xs) d = map_of (mergeMaps ys) d"
      using mergeMaps_gen[of "[]" xs d] mergeMaps_gen[of "[]" ys d] s
      by (simp add: mergeMaps_def)
  qed
  have 1: "map_of (mergeMaps maps) = map_of (mergeMaps maps')" using assms by (rule perm)
  have 2: "set (mergeMaps maps) = set (mergeMaps maps')"
    using 1 map_of_inject_set[OF mergeMaps_distinct mergeMaps_distinct] by blast
  have 3: "map_of (mergeMaps [A, B]) = map_of (mergeMaps [B, A])"
    by (rule perm) (simp add: add.commute)
  from 1 2 3 show ?thesis unfolding map_get_def by simp
qed

theorem mergeMaps_order_independent_witness:
  "mset [[(''2024-01-01'', 3::int)], [(''2024-01-01'', 2), (''2024-01-02'', 1)]] =
     mset [[(''2024-01-01'', 2), (''2024-01-02'', 1)], [(''2024-01-01'', 3)]]
   \<and> set (mergeMaps [[(''2024-01-01'', 3)], [(''2024-01-01'', 2), (''2024-01-02'', 1)]]) =
     set (mergeMaps [[(''2024-01-01'', 2), (''2024-01-02'', 1)], [(''2024-01-01'', 3)]])"
proof -
  let ?A = "[(''2024-01-01'', 3::int)]"
  let ?B = "[(''2024-01-01'', 2::int), (''2024-01-02'', 1)]"
  have p: "mset [?A, ?B] = mset [?B, ?A]" by (simp add: add.commute)
  from mergeMaps_order_independent[OF p] p show ?thesis by blast
qed

section \<open>Properties of mergedMapToPayload\<close>






section \<open>Properties of the colour classifier\<close>


lemma colorIndex_spec:
  "colorIndex bs c i =
     (if \<exists>j. i \<le> j \<and> j < length bs \<and> c \<le> bs ! j
      then (LEAST j. i \<le> j \<and> j < length bs \<and> c \<le> bs ! j)
      else length palette - 1)"
proof (induction bs c i rule: colorIndex.induct)
  case (1 bs c i)
  let ?P = "\<lambda>i j. i \<le> j \<and> j < length bs \<and> c \<le> bs ! j"
  show ?case
  proof (cases "i < length bs")
    case False
    then have none: "\<not> (\<exists>j. ?P i j)" by auto
    have "colorIndex bs c i = length palette - 1"
      using False by (subst colorIndex.simps) simp
    then show ?thesis unfolding if_not_P[OF none] .
  next
    case True
    show ?thesis
    proof (cases "c \<le> bs ! i")
      case here: True
      have "(LEAST j. ?P i j) = i"
        by (rule Least_equality) (use True here in auto)
      moreover have some: "\<exists>j. ?P i j" using True here by blast
      moreover have "colorIndex bs c i = i"
        using True here by (subst colorIndex.simps) simp
      ultimately show ?thesis unfolding if_P[OF some] by simp
    next
      case later: False
      have "?P i j \<longleftrightarrow> ?P (i + 1) j" for j
        using later by (cases "j = i") auto
      then have eq: "?P i = ?P (i + 1)" by blast
      have "colorIndex bs c i = colorIndex bs c (i + 1)"
        using True later by (subst colorIndex.simps) simp
      also note "1.IH"[OF True later]
      finally show ?thesis unfolding eq .
    qed
  qed
qed


lemma length_breaks: "length (breaks m) = 4"
  by (simp add: breaks_def)

lemma floor_quarter: "\<lfloor>(of_int m :: rat) * 0.25\<rfloor> = m div 4"
proof -
  have "(of_int m :: rat) * 0.25 = of_int m / of_int 4" by simp
  then show ?thesis by (simp only: floor_divide_of_int_eq)
qed

lemma floor_half: "\<lfloor>(of_int m :: rat) * 0.5\<rfloor> = m div 2"
proof -
  have "(of_int m :: rat) * 0.5 = of_int m / of_int 2" by simp
  then show ?thesis by (simp only: floor_divide_of_int_eq)
qed

lemma floor_three_quarters: "\<lfloor>(of_int m :: rat) * 0.75\<rfloor> = (3 * m) div 4"
proof -
  have "(of_int m :: rat) * 0.75 = of_int (3 * m) / of_int 4" by simp
  then show ?thesis by (simp only: floor_divide_of_int_eq)
qed

lemma breaks_eq:
  "breaks m = [0, max 1 (m div 4), max 1 (m div 2), max 1 ((3 * m) div 4)]"
  unfolding breaks_def floor_quarter floor_half floor_three_quarters by simp

lemma colorIndex_step:
  "colorIndex bs c i =
     (if i < length bs then (if c \<le> bs ! i then i else colorIndex bs c (Suc i))
      else length palette - 1)"
  by (subst colorIndex.simps) simp

lemma colorIndex_four:
  "colorIndex [t0, t1, t2, t3] c 0 =
     (if c \<le> t0 then 0 else if c \<le> t1 then 1 else if c \<le> t2 then 2
      else if c \<le> t3 then 3 else 4)"
proof -
  let ?bs = "[t0, t1, t2, t3]"
  have 4: "colorIndex ?bs c (Suc (Suc (Suc (Suc 0)))) = 4"
    by (subst colorIndex_step) (simp add: palette_def)
  have 3: "colorIndex ?bs c (Suc (Suc (Suc 0))) = (if c \<le> t3 then 3 else 4)"
    by (subst colorIndex_step) (simp add: 4)
  have 2: "colorIndex ?bs c (Suc (Suc 0)) = (if c \<le> t2 then 2 else if c \<le> t3 then 3 else 4)"
    by (subst colorIndex_step) (simp add: 3)
  have 1: "colorIndex ?bs c (Suc 0) =
      (if c \<le> t1 then 1 else if c \<le> t2 then 2 else if c \<le> t3 then 3 else 4)"
    by (subst colorIndex_step) (simp add: 2)
  show ?thesis
    by (subst colorIndex_step) (simp add: 1)
qed

lemma breaks_ordered:
  "max 1 (m div 4) \<le> max 1 (m div 2) \<and> max 1 (m div 2) \<le> max 1 ((3 * m) div 4)"
  for m :: int
  by (cases "0 \<le> m") (auto simp: max_def)



lemma colorIndex_four_top:
  "t0 \<le> t1 \<Longrightarrow> t1 \<le> t2 \<Longrightarrow> t2 \<le> t3 \<Longrightarrow>
   colorIndex [t0, t1, t2, t3] c 0 = 4 \<longleftrightarrow> t3 < c"
  by (simp add: colorIndex_four)

lemma colorIndex_four_mono:
  "t0 \<le> t1 \<Longrightarrow> t1 \<le> t2 \<Longrightarrow> t2 \<le> t3 \<Longrightarrow> c1 \<le> c2 \<Longrightarrow>
   colorIndex [t0, t1, t2, t3] c1 0 \<le> colorIndex [t0, t1, t2, t3] c2 0"
  by (simp add: colorIndex_four)

lemma breaks_first: "(0::int) \<le> max 1 (m div 4)"
  by simp

text \<open>
  C5. The thresholds are \<open>t0 = 0\<close>, \<open>t1 = max(1, floor(maxCount/4))\<close>,
  \<open>t2 = max(1, floor(maxCount/2))\<close>, \<open>t3 = max(1, floor(3 maxCount/4))\<close>, in ascending order;
  a count is put in the least bin \<open>i < 4\<close> with \<open>count \<le> t\<^sub>i\<close>, and in bin 4 exactly when
  it exceeds \<open>t3\<close>; count 0 is in bin 0; the colour is the palette entry of the bin. This
  holds for every integer count and \<open>maxCount\<close>, so for the non-negative counts and positive
  \<open>maxCount\<close> of the renderer.
\<close>

theorem colorForCount_smallest_bin:
  "breaks maxCount =
     [0, max 1 (maxCount div 4), max 1 (maxCount div 2), max 1 ((3 * maxCount) div 4)]
   \<and> sorted (breaks maxCount)
   \<and> colorIndex (breaks maxCount) c 0 =
       (if \<exists>i<4. c \<le> breaks maxCount ! i
        then (LEAST i. i < 4 \<and> c \<le> breaks maxCount ! i) else 4)
   \<and> (colorIndex (breaks maxCount) c 0 = 4 \<longleftrightarrow> breaks maxCount ! 3 < c)
   \<and> colorIndex (breaks maxCount) 0 0 = 0
   \<and> colorForCount maxCount c = palette ! colorIndex (breaks maxCount) c 0"
proof -
  note bo1 = conjunct1[OF breaks_ordered[of maxCount]]
  note bo2 = conjunct2[OF breaks_ordered[of maxCount]]
  have 1: "sorted (breaks maxCount)"
    unfolding breaks_eq using bo1 bo2 by auto
  have "length palette - 1 = 4" by (simp add: palette_def)
  then have 2: "colorIndex (breaks maxCount) c 0 =
             (if \<exists>i<4. c \<le> breaks maxCount ! i
              then (LEAST i. i < 4 \<and> c \<le> breaks maxCount ! i) else 4)"
    by (subst colorIndex_spec) (simp only: le0 simp_thms length_breaks)
  have "breaks maxCount ! 3 = max 1 ((3 * maxCount) div 4)" unfolding breaks_eq by simp
  then have 3: "colorIndex (breaks maxCount) c 0 = 4 \<longleftrightarrow> breaks maxCount ! 3 < c"
    unfolding breaks_eq
    using colorIndex_four_top[OF breaks_first bo1 bo2, of c] by simp
  have 4: "colorIndex (breaks maxCount) 0 0 = 0"
    unfolding breaks_eq colorIndex_four by simp
  have 5: "colorForCount maxCount c = palette ! colorIndex (breaks maxCount) c 0"
    by (rule colorForCount_def)
  show ?thesis by (intro conjI breaks_eq 1 2 3 4 5)
qed

theorem colorForCount_smallest_bin_witness:
  "breaks 10 = [0, 2, 5, 7] \<and> colorIndex (breaks 10) 6 0 = 3
   \<and> (LEAST i. i < 4 \<and> 6 \<le> breaks 10 ! i) = 3 \<and> colorForCount 10 6 = ''#30a14e''"
proof -
  note inst = colorForCount_smallest_bin[of 10 6]
  have b: "breaks 10 = [0, 2, 5, 7]" by (simp add: breaks_eq)
  have i: "colorIndex (breaks 10) 6 0 = 3" unfolding b colorIndex_four by simp
  have ex: "\<exists>i<4. (6::int) \<le> breaks 10 ! i" unfolding b by (intro exI[of _ 3]) simp
  from inst have "colorIndex (breaks 10) 6 0 =
       (if \<exists>i<4. 6 \<le> breaks 10 ! i
        then (LEAST i. i < 4 \<and> 6 \<le> breaks 10 ! i) else 4)" by blast
  then have l: "(LEAST i. i < 4 \<and> 6 \<le> breaks 10 ! i) = 3"
    unfolding i if_P[OF ex] by (rule sym)
  from inst have "colorForCount 10 6 = palette ! colorIndex (breaks 10) 6 0" by blast
  then have "colorForCount 10 6 = ''#30a14e''" unfolding i by (simp add: palette_def)
  with b i l show ?thesis by blast
qed

text \<open>
  C8. For a fixed \<open>maxCount\<close> the classifier is monotone: a count that is not larger gets a
  bin that is not larger.
\<close>

theorem colorForCount_monotone:
  assumes "c1 \<le> c2"
  shows "colorIndex (breaks maxCount) c1 0 \<le> colorIndex (breaks maxCount) c2 0"
  unfolding breaks_eq
  by (rule colorIndex_four_mono[OF breaks_first conjunct1[OF breaks_ordered] conjunct2[OF breaks_ordered] assms])

theorem colorForCount_monotone_witness:
  "(2::int) \<le> 6 \<and> colorIndex (breaks 10) 2 0 \<le> colorIndex (breaks 10) 6 0
   \<and> colorIndex (breaks 10) 2 0 = 1 \<and> colorIndex (breaks 10) 6 0 = 3"
proof -
  have h: "(2::int) \<le> 6" by simp
  have b: "breaks 10 = [0, 2, 5, 7]" by (simp add: breaks_eq)
  have "colorIndex (breaks 10) 2 0 = 1" "colorIndex (breaks 10) 6 0 = 3"
    unfolding b colorIndex_four by simp_all
  with h colorForCount_monotone[OF h, of 10] show ?thesis by blast
qed

section \<open>Properties of parseUsersParam\<close>

lemma parseUsersParam_string:
  "parseUsersParam (QString raw) =
     (if length (users_of raw) = 0
      then Inl (Error ''Missing users parameter. Example: ?users=donken,donken-lilly'')
      else if 10 < length (users_of raw)
      then Inl (Error ''Too many users requested (limit 10).'')
      else Inr (users_of raw))"
  by (simp add: parseUsersParam_def Let_def)

lemma parseUsersParam_undefined:
  "parseUsersParam QUndefined = parseUsersParam (QString [])"
  by (simp add: parseUsersParam_def)

lemma users_of_empty: "users_of [] = []"
  by (simp add: users_of_def trim_def)

lemma parseUsersParam_not_string:
  "parseUsersParam (QArray xs) = Inl TypeError" "parseUsersParam QObject = Inl TypeError"
  by (simp_all add: parseUsersParam_def)

lemma api_combined_rejected:
  "parseUsersParam q = Inl err \<Longrightarrow>
   api_combined rest q st = (Rejected 400 (error_message err), st)"
  by (simp add: api_combined_def)

lemma api_combined_svg_rejected:
  "parseUsersParam q = Inl err \<Longrightarrow>
   api_combined_svg rest q st =
     (Rejected 400
        (''<svg xmlns=\"http://www.w3.org/2000/svg\"><text x=\"10\" y=\"20\" fill=\"red\">Error: ''
         @ error_message err @ ''</text></svg>''), st)"
  by (simp add: api_combined_svg_def)

text \<open>
  C9 does not hold as it is stated. The two identities \<open>a\<close> and \<open>b\<close> sent as \<open>?users=a,b\<close>
  are returned; sent as \<open>?users=a&users=b\<close> they reach \<open>parseUsersParam\<close> as an array, on
  which \<open>raw.split\<close> throws a \<open>TypeError\<close>, and the handler answers with status 400: a client
  error is raised on a list of identities that is neither empty nor longer than 10.
\<close>

theorem parseUsersParam_repeated_parameter:
  "parseUsersParam (QString (code_units ''a,b'')) = Inr [code_units ''a'', code_units ''b'']
   \<and> parseUsersParam (QArray [code_units ''a'', code_units ''b'']) = Inl TypeError
   \<and> api_combined (Pair \<circ> Sent) (QArray [code_units ''a'', code_units ''b'']) (0::nat) =
       (Rejected 400 ''raw.split is not a function'', 0)
   \<and> length [code_units ''a'', code_units ''b''] = 2"
  by code_simp

text \<open>
  C9, amended. \<open>parseUsersParam\<close> throws exactly when the \<open>users\<close> parameter is an array or
  an object (not a single string), or it is a string, or absent, and its list of identities
  (the non-empty trimmed pieces between commas) is empty or has more than 10 entries; otherwise
  it returns that list. An absent parameter is read as the empty string. When it throws,
  both handlers answer with status 400 and the message and leave the server state as it was,
  whatever the rest of the handler (the core) is.
\<close>

theorem parseUsersParam_rejects:
  "((\<exists>err. parseUsersParam q = Inl err) \<longleftrightarrow>
      (case q of
         QUndefined \<Rightarrow> True
       | QString raw \<Rightarrow> length (users_of raw) = 0 \<or> 10 < length (users_of raw)
       | QArray xs \<Rightarrow> True
       | QObject \<Rightarrow> True))
   \<and> (\<forall>raw. q = QString raw \<and> \<not> (length (users_of raw) = 0 \<or> 10 < length (users_of raw)) \<longrightarrow>
        parseUsersParam q = Inr (users_of raw))
   \<and> (\<forall>raw. q = QString raw \<and> length (users_of raw) = 0 \<longrightarrow>
        parseUsersParam q =
          Inl (Error ''Missing users parameter. Example: ?users=donken,donken-lilly''))
   \<and> (\<forall>raw. q = QString raw \<and> 10 < length (users_of raw) \<longrightarrow>
        parseUsersParam q = Inl (Error ''Too many users requested (limit 10).''))
   \<and> (q = QUndefined \<longrightarrow>
        parseUsersParam q =
          Inl (Error ''Missing users parameter. Example: ?users=donken,donken-lilly''))
   \<and> ((\<exists>xs. q = QArray xs) \<or> q = QObject \<longrightarrow> parseUsersParam q = Inl TypeError)
   \<and> (\<forall>err. parseUsersParam q = Inl err \<longrightarrow>
        (\<forall>rest st. api_combined rest q st = (Rejected 400 (error_message err), st)))
   \<and> (\<forall>err. parseUsersParam q = Inl err \<longrightarrow>
        (\<forall>rest st. api_combined_svg rest q st =
           (Rejected 400
              (''<svg xmlns=\"http://www.w3.org/2000/svg\"><text x=\"10\" y=\"20\" fill=\"red\">Error: ''
               @ error_message err @ ''</text></svg>''), st)))"
proof -
  have u: "parseUsersParam QUndefined =
      Inl (Error ''Missing users parameter. Example: ?users=donken,donken-lilly'')"
    unfolding parseUsersParam_undefined parseUsersParam_string users_of_empty by simp
  have 1: "(\<exists>err. parseUsersParam q = Inl err) \<longleftrightarrow>
      (case q of
         QUndefined \<Rightarrow> True
       | QString raw \<Rightarrow> length (users_of raw) = 0 \<or> 10 < length (users_of raw)
       | QArray xs \<Rightarrow> True
       | QObject \<Rightarrow> True)"
    by (cases q) (auto simp: u parseUsersParam_string parseUsersParam_not_string)
  have 2: "\<forall>raw. q = QString raw \<and> \<not> (length (users_of raw) = 0 \<or> 10 < length (users_of raw)) \<longrightarrow>
        parseUsersParam q = Inr (users_of raw)"
    by (auto simp: parseUsersParam_string)
  have 3: "\<forall>raw. q = QString raw \<and> length (users_of raw) = 0 \<longrightarrow>
        parseUsersParam q =
          Inl (Error ''Missing users parameter. Example: ?users=donken,donken-lilly'')"
    by (auto simp: parseUsersParam_string)
  have 4: "\<forall>raw. q = QString raw \<and> 10 < length (users_of raw) \<longrightarrow>
        parseUsersParam q = Inl (Error ''Too many users requested (limit 10).'')"
    by (auto simp: parseUsersParam_string)
  have 5: "q = QUndefined \<longrightarrow>
        parseUsersParam q =
          Inl (Error ''Missing users parameter. Example: ?users=donken,donken-lilly'')"
    using u by simp
  have 6: "(\<exists>xs. q = QArray xs) \<or> q = QObject \<longrightarrow> parseUsersParam q = Inl TypeError"
    by (auto simp: parseUsersParam_not_string)
  have 7: "\<forall>err. parseUsersParam q = Inl err \<longrightarrow>
        (\<forall>rest st. api_combined rest q st = (Rejected 400 (error_message err), st))"
    by (intro allI impI api_combined_rejected)
  have 8: "\<forall>err. parseUsersParam q = Inl err \<longrightarrow>
        (\<forall>rest st. api_combined_svg rest q st =
           (Rejected 400
              (''<svg xmlns=\"http://www.w3.org/2000/svg\"><text x=\"10\" y=\"20\" fill=\"red\">Error: ''
               @ error_message err @ ''</text></svg>''), st))"
    by (intro allI impI api_combined_svg_rejected)
  show ?thesis by (intro conjI 1 2 3 4 5 6 7 8)
qed

theorem parseUsersParam_rejects_witness:
  "parseUsersParam (QString (code_units ''donken, donken-lilly,,'')) =
       Inr [code_units ''donken'', code_units ''donken-lilly'']
   \<and> parseUsersParam (QString (code_units ''a,b,c,d,e,f,g,h,i,j,k'')) =
       Inl (Error ''Too many users requested (limit 10).'')
   \<and> parseUsersParam (QString [0x0020, 0x002C, 0x00A0, 0x3000]) =
       Inl (Error ''Missing users parameter. Example: ?users=donken,donken-lilly'')
   \<and> api_combined (\<lambda>users st. (Sent users, Suc st))
        (QArray [code_units ''donken'', code_units ''donken-lilly'']) (0::nat) =
       (Rejected 400 ''raw.split is not a function'', 0)
   \<and> api_combined_svg (\<lambda>users st. (Sent users, Suc st)) (QString (code_units '' , '')) (0::nat) =
       (Rejected 400
          ''<svg xmlns=\"http://www.w3.org/2000/svg\"><text x=\"10\" y=\"20\" fill=\"red\">Error: Missing users parameter. Example: ?users=donken,donken-lilly</text></svg>'',
        0)"
proof -
  let ?two = "code_units ''donken, donken-lilly,,''"
  let ?many = "code_units ''a,b,c,d,e,f,g,h,i,j,k''"
  let ?blank = "[0x0020, 0x002C, 0x00A0, 0x3000] :: js_string"
  let ?arr = "QArray [code_units ''donken'', code_units ''donken-lilly'']"
  have u1: "users_of ?two = [code_units ''donken'', code_units ''donken-lilly'']"
    by code_simp
  have u2: "10 < length (users_of ?many)" by code_simp
  have u3: "length (users_of ?blank) = 0" by code_simp
  have u4: "length (users_of (code_units '' , '')) = 0" by code_simp
  have ok: "QString ?two = QString ?two
      \<and> \<not> (length (users_of ?two) = 0 \<or> 10 < length (users_of ?two))"
    unfolding u1 by simp
  have a: "parseUsersParam (QString ?two) = Inr [code_units ''donken'', code_units ''donken-lilly'']"
    using parseUsersParam_rejects[of "QString ?two", THEN conjunct2, THEN conjunct1,
        rule_format, OF ok]
    unfolding u1 .
  have b: "parseUsersParam (QString ?many) = Inl (Error ''Too many users requested (limit 10).'')"
    using parseUsersParam_rejects[of "QString ?many", THEN conjunct2, THEN conjunct2,
        THEN conjunct2, THEN conjunct1, rule_format, of ?many] u2
    by simp
  have c: "parseUsersParam (QString ?blank) =
      Inl (Error ''Missing users parameter. Example: ?users=donken,donken-lilly'')"
    using parseUsersParam_rejects[of "QString ?blank", THEN conjunct2, THEN conjunct2,
        THEN conjunct1, rule_format, of ?blank] u3
    by simp
  have c': "parseUsersParam (QString (code_units '' , '')) =
      Inl (Error ''Missing users parameter. Example: ?users=donken,donken-lilly'')"
    using parseUsersParam_rejects[of "QString (code_units '' , '')", THEN conjunct2,
        THEN conjunct2, THEN conjunct1, rule_format, of "code_units '' , ''"] u4
    by simp
  note inst = parseUsersParam_rejects[of ?arr]
  have t: "parseUsersParam ?arr = Inl TypeError"
    using inst[THEN conjunct2, THEN conjunct2, THEN conjunct2, THEN conjunct2, THEN conjunct2,
        THEN conjunct1]
    by blast
  have d: "api_combined (\<lambda>users st. (Sent users, Suc st)) ?arr (0::nat) =
       (Rejected 400 ''raw.split is not a function'', 0)"
    using inst[THEN conjunct2, THEN conjunct2, THEN conjunct2, THEN conjunct2, THEN conjunct2,
        THEN conjunct2, THEN conjunct1, rule_format, OF t]
    by (simp add: error_message_def)
  have e: "api_combined_svg (\<lambda>users st. (Sent users, Suc st)) (QString (code_units '' , ''))
        (0::nat) =
       (Rejected 400
          ''<svg xmlns=\"http://www.w3.org/2000/svg\"><text x=\"10\" y=\"20\" fill=\"red\">Error: Missing users parameter. Example: ?users=donken,donken-lilly</text></svg>'',
        0)"
    using parseUsersParam_rejects[of "QString (code_units '' , '')", THEN conjunct2,
        THEN conjunct2, THEN conjunct2, THEN conjunct2, THEN conjunct2, THEN conjunct2,
        THEN conjunct2, rule_format, OF c']
    by (simp add: error_message_def)
  show ?thesis by (intro conjI a b c d e)
qed

section \<open>Properties of the Date built-ins\<close>

lemma year_search_bounds:
  "DayFromYear (year_search d y) \<le> d \<and> d < DayFromYear (year_search d y + 1)"
proof (induction d y rule: year_search.induct)
  case (1 d y)
  show ?case
  proof (cases "DayFromYear (y + 1) \<le> d")
    case True
    then show ?thesis using "1.IH"(1) by (subst (1 2) year_search.simps) simp
  next
    case up: False
    show ?thesis
    proof (cases "d < DayFromYear y")
      case True
      then show ?thesis using up "1.IH"(2) by (subst (1 2) year_search.simps) simp
    next
      case False
      then show ?thesis using up by (subst (1 2) year_search.simps) simp
    qed
  qed
qed

lemma YearFromTime_bounds:
  "DayFromYear (YearFromTime t) \<le> Day t" "Day t < DayFromYear (YearFromTime t + 1)"
  using year_search_bounds[of "Day t"] by (simp_all add: YearFromTime_def)

lemma DayWithinYear_bounds:
  "0 \<le> DayWithinYear t" "DayWithinYear t < DaysInYear (YearFromTime t)"
  using YearFromTime_bounds[of t] DayFromYear_step[of "YearFromTime t"]
  by (simp_all add: DayWithinYear_def)

lemma DayFromYear_mono: "y \<le> y' \<Longrightarrow> DayFromYear y \<le> DayFromYear y'"
proof (induction y' rule: int_ge_induct)
  case base
  show ?case by simp
next
  case (step i)
  then show ?case using DayFromYear_step[of i] DaysInYear_bounds[of i] by simp
qed

lemma DayFromYear_strict: "DayFromYear y < DayFromYear (y + 1)"
  using DayFromYear_step[of y] DaysInYear_bounds[of y] by simp

text \<open>The year of a day is the only year whose days include it, hence the largest year
  that starts on or before it.\<close>

lemma YearFromTime_unique:
  assumes "DayFromYear y \<le> Day t" "Day t < DayFromYear (y + 1)"
  shows "YearFromTime t = y"
proof (rule ccontr)
  assume ne: "YearFromTime t \<noteq> y"
  let ?Y = "YearFromTime t"
  show False
  proof (cases "?Y < y")
    case True
    then have "DayFromYear (?Y + 1) \<le> DayFromYear y" by (intro DayFromYear_mono) simp
    then show False using assms(1) YearFromTime_bounds(2)[of t] by simp
  next
    case False
    then have "DayFromYear (y + 1) \<le> DayFromYear ?Y" using ne by (intro DayFromYear_mono) simp
    then show False using assms(2) YearFromTime_bounds(1)[of t] by simp
  qed
qed

lemma YearFromTime_mono:
  assumes "Day t \<le> Day t'"
  shows "YearFromTime t \<le> YearFromTime t'"
proof (rule ccontr)
  assume "\<not> YearFromTime t \<le> YearFromTime t'"
  then have "DayFromYear (YearFromTime t' + 1) \<le> DayFromYear (YearFromTime t)"
    by (intro DayFromYear_mono) simp
  then show False
    using assms YearFromTime_bounds(1)[of t] YearFromTime_bounds(2)[of t'] by simp
qed

lemma MonthFromTime_range: "0 \<le> MonthFromTime t" "MonthFromTime t \<le> 11"
  by (simp_all add: MonthFromTime_def Let_def)

lemma leap_cases: "DaysInYear y = 365 \<or> DaysInYear y = 366"
  by (simp add: DaysInYear_def)

text \<open>\<open>MakeDay\<close> on the year and month of a time value: the day moves with the date.\<close>

lemma month_start_DateFromTime:
  "month_start (YearFromTime t) (MonthFromTime t) = DayWithinYear t - DateFromTime t + 1"
proof -
  have l: "InLeapYear t = (if DaysInYear (YearFromTime t) = 365 then 0 else 1)"
    by (simp add: InLeapYear_def)
  note b = DayWithinYear_bounds[of t]
  show ?thesis
    unfolding month_start_def DateFromTime_def MonthFromTime_def Let_def l[symmetric]
    using b(1) by (simp add: nth_Cons')
qed

lemma MakeDay_of_time:
  "MakeDay (YearFromTime t) (MonthFromTime t) dt = Day t - DateFromTime t + dt"
proof -
  have "MonthFromTime t div 12 = 0" "MonthFromTime t mod 12 = MonthFromTime t"
    using MonthFromTime_range[of t] by simp_all
  then show ?thesis
    unfolding MakeDay_def Let_def
    by (simp add: month_start_DateFromTime DayWithinYear_def)
qed

lemma msPerDay_pos: "0 < msPerDay"
  by (simp add: msPerDay_def)

lemma Day_mult: "Day (k * msPerDay) = k"
  using msPerDay_pos by (simp add: Day_def)

lemma TimeWithinDay_bounds: "0 \<le> TimeWithinDay t" "TimeWithinDay t < msPerDay"
  using msPerDay_pos by (simp_all add: TimeWithinDay_def)

lemma Day_decomp: "t = Day t * msPerDay + TimeWithinDay t"
  by (simp add: Day_def TimeWithinDay_def)

lemma Day_add_within: "0 \<le> r \<Longrightarrow> r < msPerDay \<Longrightarrow> Day (k * msPerDay + r) = k"
  unfolding Day_def by (rule int_div_pos_eq[of _ _ _ r]) (simp_all add: mult.commute)

lemma WeekDay_range: "0 \<le> WeekDay t" "WeekDay t \<le> 6"
  by (simp_all add: WeekDay_def)

lemma TimeClip_Some: "\<bar>t\<bar> \<le> 8640000000000000 \<Longrightarrow> TimeClip t = Some t"
  by (simp add: TimeClip_def)

lemma TimeClip_SomeD: "TimeClip t = Some t' \<Longrightarrow> t' = t \<and> \<bar>t\<bar> \<le> 8640000000000000"
  by (simp add: TimeClip_def split: if_splits)

text \<open>
  \<open>MakeDay\<close> is the operation of the specification: for a month \<open>mn\<close> from 0 to 11, the day
  it gives for date 1 is a day of year \<open>y\<close>, of month \<open>mn\<close>, with date 1.
\<close>

lemma month_start_cases:
  fixes mn :: int
  assumes "0 \<le> mn" "mn \<le> 11"
  obtains "mn = 0" | "mn = 1" | "mn = 2" | "mn = 3" | "mn = 4" | "mn = 5" | "mn = 6"
    | "mn = 7" | "mn = 8" | "mn = 9" | "mn = 10" | "mn = 11"
  using assms by atomize_elim arith

lemma MakeDay_first_of_month:
  assumes "0 \<le> mn" "mn \<le> 11"
  shows "YearFromTime (MakeDate (MakeDay y mn 1) 0) = y
       \<and> MonthFromTime (MakeDate (MakeDay y mn 1) 0) = mn
       \<and> DateFromTime (MakeDate (MakeDay y mn 1) 0) = 1"
proof -
  let ?t = "MakeDate (MakeDay y mn 1) 0"
  define l :: int where "l = (if DaysInYear y = 365 then 0 else 1)"
  have dl: "DaysInYear y = 365 + l" using leap_cases[of y] by (auto simp: l_def)
  have l01: "l = 0 \<or> l = 1" by (simp add: l_def)
  have "mn div 12 = 0" "mn mod 12 = mn" using assms by simp_all
  then have day: "Day ?t = DayFromYear y + month_start y mn"
    by (simp add: MakeDate_def MakeDay_def Let_def Day_mult)
  have ms: "month_start y mn =
      [0, 31, 59 + l, 90 + l, 120 + l, 151 + l, 181 + l, 212 + l, 243 + l, 273 + l,
       304 + l, 334 + l] ! nat mn"
    by (simp add: month_start_def Let_def l_def)
  have b: "0 \<le> month_start y mn \<and> month_start y mn < DaysInYear y"
    unfolding dl ms using l01
    by (cases rule: month_start_cases[OF assms]) auto
  have yr: "YearFromTime ?t = y"
    using b DayFromYear_step[of y]
    by (intro YearFromTime_unique) (simp_all add: day)
  have dwy: "DayWithinYear ?t = month_start y mn" by (simp add: DayWithinYear_def yr day)
  have il: "InLeapYear ?t = l" by (simp add: InLeapYear_def yr l_def)
  have m: "MonthFromTime ?t = mn"
    unfolding MonthFromTime_def Let_def dwy il ms using l01
    by (cases rule: month_start_cases[OF assms]) auto
  have "DateFromTime ?t = 1"
    unfolding DateFromTime_def Let_def m dwy il ms
    by (cases rule: month_start_cases[OF assms]) auto
  with yr m show ?thesis by blast
qed

text \<open>Lines 132 to 137 move a valid start date back to the Sunday on or before it.\<close>

lemma calendarStart_of_Some:
  assumes "\<bar>t\<bar> \<le> 8640000000000000"
    and "- 8640000000000000 \<le> (Day t - WeekDay t) * msPerDay"
  shows "calendarStart_of (Some t) = Some ((Day t - WeekDay t) * msPerDay)"
proof -
  let ?c = "(Day t - WeekDay t) * msPerDay"
  let ?t' = "?c + TimeWithinDay t"
  have le: "?t' \<le> t"
  proof -
    have "?t' = t - WeekDay t * msPerDay"
      using Day_decomp[of t] by (simp add: algebra_simps)
    moreover have "0 \<le> WeekDay t * msPerDay"
      using WeekDay_range(1)[of t] msPerDay_pos by simp
    ultimately show ?thesis by simp
  qed
  have ge: "?c \<le> ?t'" using TimeWithinDay_bounds(1)[of t] by simp
  have c_le: "?c \<le> 8640000000000000" using le ge assms(1) by linarith
  have v1: "TimeClip t = Some t" using assms(1) by (rule TimeClip_Some)
  have v2: "TimeClip ?t' = Some ?t'"
    using le ge assms by (intro TimeClip_Some) linarith
  have v3: "TimeClip ?c = Some ?c"
    using c_le assms(2) by (intro TimeClip_Some) linarith
  have d: "Day ?t' = Day t - WeekDay t"
    using TimeWithinDay_bounds[of t] by (rule Day_add_within)
  have moved: "setUTCDate (Some t) (Some (DateFromTime t - WeekDay t)) = Some ?t'"
    unfolding setUTCDate_def by (simp add: MakeDay_of_time MakeDate_def v2)
  have midnight: "setUTCHours (Some ?t') 0 0 0 0 = Some ?c"
    unfolding setUTCHours_def by (simp add: d MakeDate_def MakeTime_def v3)
  show ?thesis
    unfolding calendarStart_of_def Let_def
    by (simp add: getUTCDay_def getUTCDate_def new_Date_def v1 num_sub_def moved midnight)
qed

lemma calendarStart_of_None: "calendarStart_of None = None"
  by (simp add: calendarStart_of_def Let_def getUTCDay_def getUTCDate_def new_Date_def
      num_sub_def setUTCDate_def setUTCHours_def)

text \<open>Whatever the start date, \<open>calendarStart\<close> is invalid or a midnight.\<close>

lemma setUTCHours_midnight:
  "setUTCHours tv 0 0 0 0 = Some c \<Longrightarrow> c = Day c * msPerDay \<and> \<bar>c\<bar> \<le> 8640000000000000"
  by (cases tv) (auto simp: setUTCHours_def MakeDate_def MakeTime_def Day_mult
      dest!: TimeClip_SomeD)

lemma calendarStart_of_midnight:
  "calendarStart_of sd = Some c \<Longrightarrow> c = Day c * msPerDay \<and> \<bar>c\<bar> \<le> 8640000000000000"
  unfolding calendarStart_of_def Let_def by (rule setUTCHours_midnight)

lemma WeekDay_calendarStart: "WeekDay ((Day t - WeekDay t) * msPerDay) = 0"
proof -
  have "(Day t + 4 - (Day t + 4) mod 7) mod 7 = 0"
    by (simp add: minus_mod_eq_mult_div)
  then show ?thesis
    unfolding Day_mult WeekDay_def[of "(Day t - WeekDay t) * msPerDay"]
    by (simp add: WeekDay_def algebra_simps)
qed

text \<open>Lines 141 and 142 on two midnights.\<close>

lemma Math_round_of_int: "Math_round (of_int k) = k"
proof -
  have "\<lfloor>(of_int k :: rat) + 1 / 2\<rfloor> = k" by (rule floor_unique) simp_all
  then show ?thesis by (simp add: Math_round_def)
qed

lemma totalDays_of_midnights:
  "totalDays_of (Some (a * msPerDay)) (Some (b * msPerDay)) = Some (b - a + 1)"
proof -
  have "(b * msPerDay - a * msPerDay) = (b - a) * msPerDay" by (simp add: algebra_simps)
  then have q: "(of_int (b * msPerDay - a * msPerDay) :: rat) / of_int msPerDay = of_int (b - a)"
    using msPerDay_pos by simp
  show ?thesis
    by (simp only: totalDays_of_def num_sub_def option.simps q Math_round_of_int)
qed

lemma ceiling_sevenths: "\<lceil>(of_int n :: rat) / 7\<rceil> = (n + 6) div 7"
proof -
  have "\<lceil>(of_int n :: rat) / 7\<rceil> = \<lceil>(of_int n :: rat) / of_int 7\<rceil>" by simp
  also have "\<dots> = - ((- n) div 7)" by (rule ceiling_divide_eq_div)
  also have "\<dots> = (n + 6) div 7" by presburger
  finally show ?thesis .
qed

lemma floor_sevenths: "\<lfloor>(of_int i :: rat) / 7\<rfloor> = i div 7"
  using floor_divide_of_int_eq[of i 7, where ?'a = rat] by simp

section \<open>Properties of parseDate\<close>

lemma digit_value_nonneg: "is_digit c \<Longrightarrow> 0 \<le> digit_value c"
  by (auto simp: is_digit_def digit_value_def)

lemma foldl_digits_nonneg:
  "0 \<le> n \<Longrightarrow> list_all is_digit s \<Longrightarrow> 0 \<le> foldl (\<lambda>n c. 10 * n + digit_value c) n s"
proof (induction s arbitrary: n)
  case Nil
  then show ?case by simp
next
  case (Cons c s)
  then have "0 \<le> 10 * n + digit_value c" using digit_value_nonneg[of c] by simp
  with Cons show ?case by simp
qed

lemma Number_nonneg: "Number s = Some n \<Longrightarrow> 0 \<le> n"
  using foldl_digits_nonneg[of 0 s] by (auto simp: Number_def split: if_splits)

lemma num_at_Number_nonneg: "num_at (map Number xs) i = Some n \<Longrightarrow> 0 \<le> n"
  by (auto simp: num_at_def array_get_def split: if_splits option.splits dest: Number_nonneg)

lemma month_start_nonneg:
  assumes "0 \<le> mn" "mn \<le> 11"
  shows "0 \<le> month_start y mn"
proof -
  define l :: int where "l = (if DaysInYear y = 365 then 0 else 1)"
  let ?xs = "[0, 31, 59 + l, 90 + l, 120 + l, 151 + l, 181 + l, 212 + l, 243 + l, 273 + l,
       304 + l, 334 + l]"
  have "0 \<le> l" by (simp add: l_def)
  then have all: "\<forall>x \<in> set ?xs. 0 \<le> x" by simp
  have "nat mn < length ?xs" using assms by simp
  then have "?xs ! nat mn \<in> set ?xs" by (rule nth_mem)
  with all have "0 \<le> ?xs ! nat mn" by blast
  then show ?thesis by (simp add: month_start_def Let_def l_def)
qed

lemma DayFromYear_99: "DayFromYear 99 = - 683368"
  by (simp add: DayFromYear_def)

lemma MakeDay_lower:
  assumes "100 \<le> yr" "- 1 \<le> mm" "0 \<le> dd"
  shows "- 683369 \<le> MakeDay yr mm dd"
proof -
  have "(- 1) div 12 \<le> mm div (12::int)" using assms(2) by (intro zdiv_mono1) simp_all
  then have "99 \<le> yr + mm div 12" using assms(1) by simp
  then have "DayFromYear 99 \<le> DayFromYear (yr + mm div 12)" by (rule DayFromYear_mono)
  moreover have "0 \<le> month_start (yr + mm div 12) (mm mod 12)"
    by (rule month_start_nonneg) simp_all
  ultimately show ?thesis
    using assms(3) unfolding MakeDay_def Let_def DayFromYear_99 by linarith
qed

text \<open>A date that parses is a midnight, in the range of time values, after the year 98.\<close>

lemma parseDate_Some:
  assumes "parseDate s = Some t"
  shows "t = Day t * msPerDay" and "\<bar>t\<bar> \<le> 8640000000000000" and "- 683369 \<le> Day t"
proof -
  let ?parts = "map Number (split CHR ''-'' s)"
  from assms obtain t' where utc: "Date_UTC (num_at ?parts 0) (num_sub (num_at ?parts 1) (Some 1))
      (num_at ?parts 2) = Some t'" and clip: "TimeClip t' = Some t"
    by (auto simp: parseDate_def Let_def new_Date_def split: option.splits)
  from clip have tt: "t' = t" and range: "\<bar>t\<bar> \<le> 8640000000000000"
    by (auto dest: TimeClip_SomeD)
  from utc obtain y m dd where y: "num_at ?parts 0 = Some y" and m: "num_at ?parts 1 = Some m"
    and dd: "num_at ?parts 2 = Some dd"
    and mk: "TimeClip (MakeDate (MakeDay (if 0 \<le> y \<and> y \<le> 99 then 1900 + y else y) (m - 1) dd)
               (MakeTime 0 0 0 0)) = Some t'"
    by (auto simp: Date_UTC_def num_sub_def Let_def split: option.splits)
  let ?yr = "if 0 \<le> y \<and> y \<le> 99 then 1900 + y else y"
  have eq: "t = MakeDay ?yr (m - 1) dd * msPerDay"
    using TimeClip_SomeD[OF mk] tt by (simp add: MakeDate_def MakeTime_def)
  have "0 \<le> y" "0 \<le> m" "0 \<le> dd"
    using y m dd by (auto dest: num_at_Number_nonneg)
  then have "- 683369 \<le> MakeDay ?yr (m - 1) dd" by (intro MakeDay_lower) auto
  then show "- 683369 \<le> Day t" unfolding eq Day_mult .
  show "t = Day t * msPerDay" unfolding eq Day_mult ..
  show "\<bar>t\<bar> \<le> 8640000000000000" by (rule range)
qed

section \<open>Properties of the grid\<close>

lemma date_at_Some:
  "\<bar>c + i * msPerDay\<bar> \<le> 8640000000000000 \<Longrightarrow> date_at (Some c) i = Some (c + i * msPerDay)"
  by (simp add: date_at_def num_add_def new_Date_def TimeClip_Some)

lemma iso_at_Some:
  "date_at cs i = Some d \<Longrightarrow> \<exists>s. toISOString (Some d) = Inr s \<and> iso_at cs i = Inr (take 10 s)"
  by (simp add: iso_at_def toISOString_def)

lemma cell_at_Some:
  assumes "date_at cs i = Some d"
  shows "\<exists>isoDate. iso_at cs i = Inr isoDate \<and>
     cell_at cs cnts mx i =
       Inr \<lparr>cell_iso = isoDate, cell_count = or_zero (map_get cnts isoDate),
            cell_dayOfWeek = Some (WeekDay d), cell_weekIndex = i div 7,
            cell_x = paddingLeft + padding + (i div 7) * (rectSize + gap),
            cell_y = Some (paddingTop + padding + WeekDay d * (rectSize + gap)),
            cell_fill = colorForCount mx (or_zero (map_get cnts isoDate))\<rparr>"
proof -
  from iso_at_Some[OF assms] obtain s where s: "iso_at cs i = Inr (take 10 s)" by blast
  show ?thesis
    unfolding cell_at_def s using assms
    by (simp add: Let_def getUTCDay_def floor_sevenths num_add_def)
qed

lemma day_indices_Some: "i \<in> set (day_indices (Some n)) \<longleftrightarrow> 0 \<le> i \<and> i < n"
  by (auto simp: day_indices_def)

lemma WeekDay_offset:
  assumes "WeekDay c = 0" "c = Day c * msPerDay"
  shows "WeekDay (c + i * msPerDay) = i mod 7"
proof -
  have "c + i * msPerDay = (Day c + i) * msPerDay"
    using assms(2) by (simp add: algebra_simps)
  then have "Day (c + i * msPerDay) = Day c + i" by (simp only: Day_mult)
  moreover have "(Day c + 4) mod 7 = 0" using assms(1) by (simp add: WeekDay_def)
  ultimately have "WeekDay (c + i * msPerDay) = ((Day c + 4) + i) mod 7"
    by (simp add: WeekDay_def algebra_simps)
  also have "\<dots> = i mod 7"
    using \<open>(Day c + 4) mod 7 = 0\<close> by (metis add.left_neutral mod_add_left_eq)
  finally show ?thesis .
qed

text \<open>The facts about the grid of two dates that parse, in terms of day numbers.\<close>

lemma grid_facts:
  assumes s: "parseDate s = Some st" and e: "parseDate e = Some en" and le: "st \<le> en"
  defines "c \<equiv> st - WeekDay st * msPerDay"
  defines "n \<equiv> (en - c) div msPerDay + 1"
  shows "calendarStart_of (Some st) = Some c"
    and "c = (Day st - WeekDay st) * msPerDay"
    and "c \<le> st" and "\<bar>c\<bar> \<le> 8640000000000000"
    and "WeekDay c = 0"
    and "totalDays_of (Some c) (Some en) = Some n"
    and "n = Day en - Day c + 1"
    and "en = c + (n - 1) * msPerDay"
    and "1 \<le> n"
proof -
  note ps = parseDate_Some[OF s] and pe = parseDate_Some[OF e]
  show c_eq: "c = (Day st - WeekDay st) * msPerDay"
    unfolding c_def using ps(1) by (simp add: algebra_simps)
  have wd: "0 \<le> WeekDay st" "WeekDay st \<le> 6" by (rule WeekDay_range)+
  show c_le: "c \<le> st" unfolding c_def using wd(1) msPerDay_pos by simp
  have "- 683375 \<le> Day st - WeekDay st" using ps(3) wd(2) by simp
  then have "- 683375 * msPerDay \<le> (Day st - WeekDay st) * msPerDay"
    using msPerDay_pos by (intro mult_right_mono) simp_all
  then have lower: "- 8640000000000000 \<le> (Day st - WeekDay st) * msPerDay"
    by (simp add: msPerDay_def)
  show "calendarStart_of (Some st) = Some c"
    unfolding c_eq using ps(2) lower by (rule calendarStart_of_Some)
  show "\<bar>c\<bar> \<le> 8640000000000000" using lower c_le ps(2) unfolding c_eq by linarith
  show "WeekDay c = 0" unfolding c_eq by (rule WeekDay_calendarStart)
  have dc: "Day c = Day st - WeekDay st" unfolding c_eq by (rule Day_mult)
  have cmid: "Day c * msPerDay = c" unfolding dc by (rule c_eq[symmetric])
  have emid: "Day en * msPerDay = en" by (rule pe(1)[symmetric])
  have "(Day en - Day c) * msPerDay = Day en * msPerDay - Day c * msPerDay"
    by (rule left_diff_distrib)
  then have diff: "en - c = (Day en - Day c) * msPerDay" unfolding cmid emid by (rule sym)
  then have "(en - c) div msPerDay = Day en - Day c" using msPerDay_pos by simp
  then show n_eq: "n = Day en - Day c + 1" by (simp add: n_def)
  have "totalDays_of (Some (Day c * msPerDay)) (Some (Day en * msPerDay)) = Some n"
    unfolding n_eq by (rule totalDays_of_midnights)
  then show "totalDays_of (Some c) (Some en) = Some n"
    unfolding cmid emid .
  have "Day en - Day c = n - 1" using n_eq by simp
  then have "en - c = (n - 1) * msPerDay" using diff by simp
  then show "en = c + (n - 1) * msPerDay" by simp
  have "c \<le> en" using c_le le by simp
  then have "0 \<le> (Day en - Day c) * msPerDay" using diff by simp
  then have "0 \<le> Day en - Day c" using msPerDay_pos by (simp add: zero_le_mult_iff)
  then show "1 \<le> n" using n_eq by simp
qed

lemma weeks_of_Some: "weeks_of (Some n) = Some ((n + 6) div 7)"
  by (simp add: weeks_of_def ceiling_sevenths)

lemma column_in_range: "0 \<le> i \<Longrightarrow> i < n \<Longrightarrow> 0 \<le> i div 7 \<and> i div 7 < (n + 6) div 7" for i n :: int
  by presburger

lemma div_mod_7_inject: "i div 7 = j div 7 \<Longrightarrow> i mod 7 = j mod 7 \<Longrightarrow> i = j" for i j :: int
  by presburger

text \<open>
  C2. For two dates that parse, with \<open>start \<le> end\<close>: \<open>calendarStart\<close> is the start moved
  back by its weekday, so it is not after the start and is a Sunday; \<open>totalDays\<close> is the
  number of days from \<open>calendarStart\<close> to the end, both included; \<open>weeks\<close> is the ceiling of
  \<open>totalDays / 7\<close>; every day \<open>d\<close> from start to end has a cell, at the index \<open>i\<close> that is its
  number of days after \<open>calendarStart\<close>, in column \<open>floor(i / 7)\<close>, which lies in
  \<open>[0, weeks)\<close>, and in row \<open>i mod 7\<close>, which is the weekday of \<open>d\<close>; and two cells of the grid
  in the same column and row are the same cell.
\<close>

theorem grid_invariant:
  assumes s: "parseDate s = Some st" and e: "parseDate e = Some en" and le: "st \<le> en"
  defines "c \<equiv> st - WeekDay st * msPerDay"
  defines "n \<equiv> (en - c) div msPerDay + 1"
  shows "calendarStart_of (parseDate s) = Some c \<and> c \<le> st \<and> getUTCDay (Some c) = Some 0
    \<and> totalDays_of (Some c) (parseDate e) = Some n
    \<and> weeks_of (Some n) = Some \<lceil>(of_int n :: rat) / 7\<rceil>
    \<and> weeks_of (Some n) = Some ((n + 6) div 7)
    \<and> (\<forall>d. st \<le> d \<and> d \<le> en \<and> d = Day d * msPerDay \<longrightarrow>
          (\<exists>i g. i = (d - c) div msPerDay \<and> i \<in> set (day_indices (Some n))
             \<and> date_at (Some c) i = Some d
             \<and> cell_at (Some c) cnts mx i = Inr g
             \<and> cell_weekIndex g = i div 7
             \<and> 0 \<le> cell_weekIndex g \<and> cell_weekIndex g < (n + 6) div 7
             \<and> cell_dayOfWeek g = Some (i mod 7)
             \<and> cell_dayOfWeek g = getUTCDay (Some d)))
    \<and> (\<forall>i j g h. i \<in> set (day_indices (Some n)) \<and> j \<in> set (day_indices (Some n))
          \<and> cell_at (Some c) cnts mx i = Inr g \<and> cell_at (Some c) cnts mx j = Inr h
          \<and> cell_weekIndex g = cell_weekIndex h \<and> cell_dayOfWeek g = cell_dayOfWeek h
          \<longrightarrow> i = j)"
proof -
  note g = grid_facts[OF s e le, folded c_def, folded n_def]
  have cmid: "c = Day c * msPerDay" unfolding g(2) Day_mult ..
  have valid: "date_at (Some c) i = Some (c + i * msPerDay)" if "0 \<le> i" "i < n" for i
  proof -
    have "0 \<le> i * msPerDay" using that(1) msPerDay_pos by simp
    moreover have "i * msPerDay \<le> (n - 1) * msPerDay"
      using that(2) msPerDay_pos by (intro mult_right_mono) simp_all
    ultimately have "c \<le> c + i * msPerDay" "c + i * msPerDay \<le> en"
      using g(8) by simp_all
    then have "\<bar>c + i * msPerDay\<bar> \<le> 8640000000000000"
      using g(4) parseDate_Some(2)[OF e] by linarith
    then show ?thesis by (rule date_at_Some)
  qed
  have cell: "\<exists>g. cell_at (Some c) cnts mx i = Inr g \<and> cell_weekIndex g = i div 7
      \<and> cell_dayOfWeek g = Some (i mod 7)" if "0 \<le> i" "i < n" for i
  proof -
    from cell_at_Some[OF valid[OF that], of cnts mx] obtain isoDate where
      "cell_at (Some c) cnts mx i =
       Inr \<lparr>cell_iso = isoDate, cell_count = or_zero (map_get cnts isoDate),
            cell_dayOfWeek = Some (WeekDay (c + i * msPerDay)), cell_weekIndex = i div 7,
            cell_x = paddingLeft + padding + (i div 7) * (rectSize + gap),
            cell_y = Some (paddingTop + padding + WeekDay (c + i * msPerDay) * (rectSize + gap)),
            cell_fill = colorForCount mx (or_zero (map_get cnts isoDate))\<rparr>"
      by blast
    then show ?thesis by (simp add: WeekDay_offset[OF g(5) cmid])
  qed
  have 1: "calendarStart_of (parseDate s) = Some c" unfolding s by (rule g(1))
  have 3: "getUTCDay (Some c) = Some 0" by (simp add: getUTCDay_def g(5))
  have 4: "totalDays_of (Some c) (parseDate e) = Some n" unfolding e by (rule g(6))
  have 5: "weeks_of (Some n) = Some \<lceil>(of_int n :: rat) / 7\<rceil>" by (simp add: weeks_of_def)
  have 7: "\<exists>i g. i = (d - c) div msPerDay \<and> i \<in> set (day_indices (Some n))
             \<and> date_at (Some c) i = Some d
             \<and> cell_at (Some c) cnts mx i = Inr g
             \<and> cell_weekIndex g = i div 7
             \<and> 0 \<le> cell_weekIndex g \<and> cell_weekIndex g < (n + 6) div 7
             \<and> cell_dayOfWeek g = Some (i mod 7)
             \<and> cell_dayOfWeek g = getUTCDay (Some d)"
    if d: "st \<le> d \<and> d \<le> en \<and> d = Day d * msPerDay" for d
  proof -
    define i where "i = Day d - Day c"
    have "(Day d - Day c) * msPerDay = Day d * msPerDay - Day c * msPerDay"
      by (rule left_diff_distrib)
    then have dc: "d - c = i * msPerDay" using d cmid by (simp add: i_def)
    then have i_eq: "i = (d - c) div msPerDay" using msPerDay_pos by simp
    have d_eq: "d = c + i * msPerDay" using dc by simp
    have "c \<le> d" using g(3) d by simp
    then have "0 \<le> i * msPerDay" using dc by simp
    then have i0: "0 \<le> i" using msPerDay_pos by (simp add: zero_le_mult_iff)
    have "i * msPerDay \<le> (n - 1) * msPerDay" using d g(8) dc by simp
    then have "i \<le> n - 1" using msPerDay_pos by (simp add: mult_le_cancel_right)
    then have i1: "i < n" by simp
    from cell[OF i0 i1] obtain g where
      gc: "cell_at (Some c) cnts mx i = Inr g" "cell_weekIndex g = i div 7"
        "cell_dayOfWeek g = Some (i mod 7)" by blast
    have "getUTCDay (Some d) = Some (i mod 7)"
      unfolding d_eq by (simp add: getUTCDay_def WeekDay_offset[OF g(5) cmid])
    moreover have "date_at (Some c) i = Some d" unfolding d_eq by (rule valid[OF i0 i1])
    moreover have "i \<in> set (day_indices (Some n))" using i0 i1 by (simp add: day_indices_Some)
    ultimately show ?thesis
      using gc column_in_range[OF i0 i1] i_eq by auto
  qed
  have 8: "i = j"
    if h: "i \<in> set (day_indices (Some n)) \<and> j \<in> set (day_indices (Some n))
          \<and> cell_at (Some c) cnts mx i = Inr g \<and> cell_at (Some c) cnts mx j = Inr h
          \<and> cell_weekIndex g = cell_weekIndex h \<and> cell_dayOfWeek g = cell_dayOfWeek h"
    for i j g h
  proof -
    from h have i: "0 \<le> i" "i < n" and j: "0 \<le> j" "j < n"
      by (simp_all add: day_indices_Some)
    from cell[OF i] cell[OF j] h
    have "i div 7 = j div 7" "i mod 7 = j mod 7" by auto
    then show ?thesis by (rule div_mod_7_inject)
  qed
  show ?thesis
    using 1 g(3) 3 4 5 weeks_of_Some[of n] 7 8 by blast
qed

theorem grid_invariant_witness:
  "parseDate ''2024-03-01'' = Some 1709251200000
   \<and> (1709251200000::int) \<le> 1709251200000
   \<and> calendarStart_of (parseDate ''2024-03-01'') = parseDate ''2024-02-25''
   \<and> totalDays_of (parseDate ''2024-02-25'') (parseDate ''2024-03-01'') = Some 6
   \<and> weeks_of (Some 6) = Some 1
   \<and> (\<exists>g. cell_at (parseDate ''2024-02-25'') [(''2024-03-01'', 10)] 10 5 = Inr g
          \<and> cell_weekIndex g = 0 \<and> cell_dayOfWeek g = Some 5
          \<and> getUTCDay (parseDate ''2024-03-01'') = Some 5)"
proof -
  have s: "parseDate ''2024-03-01'' = Some 1709251200000" by code_simp
  have c: "parseDate ''2024-02-25'' = Some 1708819200000" by code_simp
  have le: "(1709251200000::int) \<le> 1709251200000" by simp
  have wd: "WeekDay 1709251200000 = 5" by code_simp
  have cv: "(1709251200000::int) - 5 * msPerDay = 1708819200000" by (simp add: msPerDay_def)
  have nv: "((1709251200000::int) - 1708819200000) div msPerDay + 1 = 6"
    by (simp add: msPerDay_def)
  have dm: "(1709251200000::int) = Day 1709251200000 * msPerDay"
    by (simp add: Day_def msPerDay_def)
  have iv: "((1709251200000::int) - 1708819200000) div msPerDay = 5"
    by (simp add: msPerDay_def)
  note inst = grid_invariant[OF s s le, of "[(''2024-03-01'', 10)]" 10,
      unfolded wd cv nv, folded c]
  from inst have 1: "calendarStart_of (parseDate ''2024-03-01'') = parseDate ''2024-02-25''"
    by blast
  from inst have 2: "totalDays_of (parseDate ''2024-02-25'') (parseDate ''2024-03-01'') = Some 6"
    by blast
  from inst have 3: "weeks_of (Some 6) = Some ((6 + 6) div 7)" by blast
  from inst have "\<forall>d. 1709251200000 \<le> d \<and> d \<le> 1709251200000 \<and> d = Day d * msPerDay \<longrightarrow>
          (\<exists>i g. i = (d - 1708819200000) div msPerDay \<and> i \<in> set (day_indices (Some 6))
             \<and> date_at (parseDate ''2024-02-25'') i = Some d
             \<and> cell_at (parseDate ''2024-02-25'') [(''2024-03-01'', 10)] 10 i = Inr g
             \<and> cell_weekIndex g = i div 7
             \<and> 0 \<le> cell_weekIndex g \<and> cell_weekIndex g < (6 + 6) div 7
             \<and> cell_dayOfWeek g = Some (i mod 7)
             \<and> cell_dayOfWeek g = getUTCDay (Some d))"
    unfolding c by blast
  from this[rule_format, of 1709251200000] le dm
  obtain g where "cell_at (parseDate ''2024-02-25'') [(''2024-03-01'', 10)] 10 5 = Inr g"
    "cell_weekIndex g = 5 div 7" "cell_dayOfWeek g = Some (5 mod 7)"
    "cell_dayOfWeek g = getUTCDay (Some 1709251200000)"
    unfolding iv by blast
  then have 4: "\<exists>g. cell_at (parseDate ''2024-02-25'') [(''2024-03-01'', 10)] 10 5 = Inr g
          \<and> cell_weekIndex g = 0 \<and> cell_dayOfWeek g = Some 5
          \<and> getUTCDay (parseDate ''2024-03-01'') = Some 5"
    unfolding s by (intro exI[of _ g]) simp
  from 3 have 3: "weeks_of (Some 6) = Some 1" by simp
  show ?thesis by (intro conjI s le 1 2 3 4)
qed

section \<open>Properties of the loops of renderCalendarSVG\<close>

lemma for_each_append:
  assumes "\<forall>i \<in> set ixs. \<exists>x. f i = Inr x"
  shows "for_each (\<lambda>acc i. map_sum id (\<lambda>x. acc @ h x) (f i)) acc ixs =
           Inr (acc @ concat (map (\<lambda>i. h (projr (f i))) ixs))"
  using assms
proof (induction ixs arbitrary: acc)
  case Nil
  show ?case by simp
next
  case (Cons i ixs)
  then obtain x where x: "f i = Inr x" by auto
  from Cons.prems have "\<forall>i \<in> set ixs. \<exists>x. f i = Inr x" by simp
  from Cons.IH[OF this] show ?case by (simp add: x)
qed

text \<open>Every index of the loops is a valid date: no \<open>toISOString\<close> throws.\<close>

lemma loop_dates_valid:
  assumes "i \<in> set (day_indices (totalDays_of (calendarStart_of sd) (parseDate e)))"
  shows "\<exists>d. date_at (calendarStart_of sd) i = Some d"
proof (cases "calendarStart_of sd")
  case None
  then show ?thesis using assms by (simp add: totalDays_of_def num_sub_def day_indices_def split: option.splits)
next
  case c: (Some c)
  show ?thesis
  proof (cases "parseDate e")
    case None
    then show ?thesis using assms by (simp add: totalDays_of_def num_sub_def day_indices_def)
  next
    case en: (Some en)
    note cm = calendarStart_of_midnight[OF c] and pe = parseDate_Some[OF en]
    have cmid: "Day c * msPerDay = c" using cm by simp
    have emid: "Day en * msPerDay = en" using pe(1) by simp
    have "totalDays_of (Some (Day c * msPerDay)) (Some (Day en * msPerDay)) = Some (Day en - Day c + 1)"
      by (rule totalDays_of_midnights)
    then have td: "totalDays_of (Some c) (Some en) = Some (Day en - Day c + 1)"
      unfolding cmid emid .
    from assms have i: "0 \<le> i" "i \<le> Day en - Day c"
      unfolding c en td by (simp_all add: day_indices_Some)
    have "0 \<le> i * msPerDay" using i(1) msPerDay_pos by simp
    moreover have "i * msPerDay \<le> (Day en - Day c) * msPerDay"
      using i(2) msPerDay_pos by (intro mult_right_mono) simp_all
    moreover have "(Day en - Day c) * msPerDay = en - c"
      unfolding left_diff_distrib cmid emid ..
    ultimately have "c \<le> c + i * msPerDay" "c + i * msPerDay \<le> en" by simp_all
    then have "\<bar>c + i * msPerDay\<bar> \<le> 8640000000000000"
      using cm pe(2) by linarith
    then have "date_at (Some c) i = Some (c + i * msPerDay)" by (rule date_at_Some)
    then show ?thesis unfolding c by blast
  qed
qed

lemma iso_at_total:
  assumes "i \<in> set (day_indices (totalDays_of (calendarStart_of sd) (parseDate e)))"
  shows "\<exists>s. iso_at (calendarStart_of sd) i = Inr s"
  using loop_dates_valid[OF assms] iso_at_Some by blast

lemma cell_at_total:
  assumes "i \<in> set (day_indices (totalDays_of (calendarStart_of sd) (parseDate e)))"
  shows "\<exists>g. cell_at (calendarStart_of sd) cnts mx i = Inr g"
  using loop_dates_valid[OF assms] cell_at_Some by blast

lemma month_step_total:
  "iso_at cs i = Inr s \<Longrightarrow> \<exists>mp'. month_step cs mp i = Inr mp'"
  by (simp add: month_step_def Let_def)

lemma for_each_total:
  assumes "\<forall>i \<in> set ixs. \<forall>st. \<exists>st'. body st i = Inr st'"
  shows "\<exists>st'. for_each body st ixs = Inr st'"
  using assms
proof (induction ixs arbitrary: st)
  case Nil
  show ?case by simp
next
  case (Cons i ixs)
  then obtain st1 where "body st i = Inr st1" by (meson list.set_intros(1))
  moreover from Cons have "\<exists>st'. for_each body st1 ixs = Inr st'" by simp
  ultimately show ?case by simp
qed

lemma monthPositions_of_total:
  "\<exists>mp. monthPositions_of (calendarStart_of sd) (totalDays_of (calendarStart_of sd) (parseDate e))
      = Inr mp"
  unfolding monthPositions_of_def
  by (rule for_each_total) (use iso_at_total month_step_total in blast)

lemma rects_of_eq:
  "rects_of (calendarStart_of sd) cnts mx (totalDays_of (calendarStart_of sd) (parseDate e)) =
     Inr (concat (map (\<lambda>i. rect_svg (projr (cell_at (calendarStart_of sd) cnts mx i)))
        (day_indices (totalDays_of (calendarStart_of sd) (parseDate e)))))"
  unfolding rects_of_def
  using for_each_append[of _ "cell_at (calendarStart_of sd) cnts mx" rect_svg "[]"] cell_at_total
  by simp

text \<open>The renderer never throws.\<close>

lemma renderCalendarSVG_total: "\<exists>svg. renderCalendarSVG p u = Inr svg"
proof (cases "falsy (start p) \<or> falsy (end_date p)")
  case True
  then show ?thesis by (simp add: renderCalendarSVG_def)
next
  case False
  let ?sd = "parseDate (str_of (start p))"
  let ?e = "str_of (end_date p)"
  from monthPositions_of_total[of ?sd ?e] obtain mp where
    mp: "monthPositions_of (calendarStart_of ?sd) (totalDays_of (calendarStart_of ?sd) (parseDate ?e)) = Inr mp"
    by blast
  show ?thesis
    unfolding renderCalendarSVG_def Let_def if_not_P[OF False] mp rects_of_eq
    by simp
qed

section \<open>Properties of renderCalendarSVG\<close>

text \<open>The end of the document, from the comment that precedes the squares.\<close>

lemma prefix_step: "\<exists>pre. ys = pre @ t \<Longrightarrow> \<exists>pre. x @ ys = pre @ t"
proof -
  assume "\<exists>pre. ys = pre @ t"
  then obtain pre where "ys = pre @ t" by blast
  then have "x @ ys = (x @ pre) @ t" by simp
  then show ?thesis by blast
qed

lemma prefix_here: "\<exists>pre. t = pre @ t"
  by (rule exI[of _ "[]"]) simp

lemma svg_document_tail:
  "\<exists>pre. svg_document w u ml wl rects =
     pre @ ''  <!-- Contribution squares -->'' @ [CHR 0x0A] @ ''  '' @ rects @ [CHR 0x0A]
       @ ''</svg>''"
  unfolding svg_document_def by (intro prefix_here prefix_step)

lemma show_int_12: "show_int 12 = ''12''"
  by code_simp

lemma rect_svg_cell:
  "rect_svg \<lparr>cell_iso = isoDate, cell_count = k,
            cell_dayOfWeek = Some r, cell_weekIndex = w,
            cell_x = paddingLeft + padding + w * (rectSize + gap),
            cell_y = Some (paddingTop + padding + r * (rectSize + gap)),
            cell_fill = f\<rparr> =
     ''<rect x=\"'' @ show_int (44 + 16 * w) @ ''\" y=\"'' @ show_int (30 + 16 * r)
     @ ''\" width=\"12\" height=\"12\" rx=\"2\" ry=\"2\" fill=\"'' @ f
     @ ''\" stroke=\"#e6e6e6\" stroke-width=\"0.5\"><title>''
     @ show_int k @ '' contributions on '' @ isoDate @ ''</title></rect>'' @ [CHR 0x0A]"
proof -
  have x: "paddingLeft + padding + w * (rectSize + gap) = 44 + 16 * w"
    by (simp add: paddingLeft_def padding_def rectSize_def gap_def)
  have y: "paddingTop + padding + r * (rectSize + gap) = 30 + 16 * r"
    by (simp add: paddingTop_def padding_def rectSize_def gap_def)
  have s: "show_int rectSize = ''12''" unfolding rectSize_def by (rule show_int_12)
  show ?thesis
    unfolding rect_svg_def x y s by (simp add: show_num_def)
qed

lemma parseDate_Nil: "parseDate [] = None"
  by (simp add: parseDate_def Let_def num_at_def array_get_def Number_def Date_UTC_def
      num_sub_def new_Date_def)

lemma colorIndex_zero: "colorIndex (breaks m) 0 0 = 0"
  unfolding breaks_eq colorIndex_four by simp

lemma colorForCount_zero: "colorForCount m 0 = palette ! 0"
  by (simp add: colorForCount_def colorIndex_zero)

lemma renderCalendarSVG_dates:
  assumes "start p = Some s" "end_date p = Some e" "parseDate s = Some st" "parseDate e = Some en"
  shows "\<exists>mp. monthPositions_of (calendarStart_of (Some st))
                 (totalDays_of (calendarStart_of (Some st)) (Some en)) = Inr mp
     \<and> renderCalendarSVG p u =
       Inr (svg_document (width_of (weeks_of (totalDays_of (calendarStart_of (Some st)) (Some en)))) u
              (concat (map month_label_svg (month_labels_of mp)))
              (concat (map weekday_label_svg weekdayLabels))
              (concat (map (\<lambda>i. rect_svg (projr (cell_at (calendarStart_of (Some st)) (counts p)
                   (maxCount_of (counts p)) i)))
                 (day_indices (totalDays_of (calendarStart_of (Some st)) (Some en))))))"
proof -
  have "s \<noteq> []" "e \<noteq> []" using assms(3,4) parseDate_Nil by auto
  then have nf: "\<not> (falsy (start p) \<or> falsy (end_date p))"
    using assms(1,2) by (simp add: falsy_def)
  have so: "str_of (start p) = s" "str_of (end_date p) = e"
    using assms(1,2) by (simp_all add: str_of_def)
  from monthPositions_of_total[of "parseDate s" e] obtain mp where
    mp: "monthPositions_of (calendarStart_of (parseDate s))
           (totalDays_of (calendarStart_of (parseDate s)) (parseDate e)) = Inr mp"
    by blast
  have "renderCalendarSVG p u =
       Inr (svg_document (width_of (weeks_of (totalDays_of (calendarStart_of (parseDate s)) (parseDate e)))) u
              (concat (map month_label_svg (month_labels_of mp)))
              (concat (map weekday_label_svg weekdayLabels))
              (concat (map (\<lambda>i. rect_svg (projr (cell_at (calendarStart_of (parseDate s)) (counts p)
                   (maxCount_of (counts p)) i)))
                 (day_indices (totalDays_of (calendarStart_of (parseDate s)) (parseDate e))))))"
    unfolding renderCalendarSVG_def Let_def if_not_P[OF nf] so mp rects_of_eq by simp
  with mp show ?thesis unfolding assms(3,4) by blast
qed

text \<open>
  C7. When \<open>start\<close> or \<open>end\<close> of the summary is \<open>null\<close>, as in the summary of the empty
  series, \<open>renderCalendarSVG\<close> returns, without throwing, the document
  \<open><svg xmlns="http://www.w3.org/2000/svg"></svg>\<close>, which holds no \<open>rect\<close> element (no cell)
  and no \<open>text\<close> element (no label).
\<close>

theorem renderCalendarSVG_empty:
  assumes "start p = None \<or> end_date p = None"
  shows "renderCalendarSVG p u = Inr empty_svg
    \<and> empty_svg = ''<svg xmlns=\"http://www.w3.org/2000/svg\"></svg>''
    \<and> \<not> sublist ''<rect'' empty_svg \<and> \<not> sublist ''<text'' empty_svg
    \<and> renderCalendarSVG (mergedMapToPayload (mergeMaps [])) u = Inr empty_svg"
proof -
  have 1: "renderCalendarSVG p u = Inr empty_svg"
    using assms by (auto simp: renderCalendarSVG_def falsy_def)
  have 2: "\<not> sublist ''<rect'' empty_svg" unfolding empty_svg_def by code_simp
  have 3: "\<not> sublist ''<text'' empty_svg" unfolding empty_svg_def by code_simp
  have "start (mergedMapToPayload (mergeMaps [])) = None"
    by (simp add: mergeMaps_def mergedMapToPayload_def map_keys_def array_get_def or_null_def)
  then have 4: "renderCalendarSVG (mergedMapToPayload (mergeMaps [])) u = Inr empty_svg"
    by (simp add: renderCalendarSVG_def falsy_def)
  show ?thesis by (intro conjI 1 empty_svg_def 2 3 4)
qed

theorem renderCalendarSVG_empty_witness:
  "start (mergedMapToPayload []) = None
   \<and> renderCalendarSVG (mergedMapToPayload []) ''donken'' =
       Inr ''<svg xmlns=\"http://www.w3.org/2000/svg\"></svg>''"
proof -
  have s: "start (mergedMapToPayload []) = None"
    by (simp add: mergedMapToPayload_def map_keys_def array_get_def or_null_def)
  then have h: "start (mergedMapToPayload []) = None \<or> end_date (mergedMapToPayload []) = None"
    by (rule disjI1)
  note inst = renderCalendarSVG_empty[OF h, of "''donken''"]
  from inst have "renderCalendarSVG (mergedMapToPayload []) ''donken'' = Inr empty_svg"
    by (rule conjunct1)
  then show ?thesis using s by (simp add: empty_svg_def)
qed

text \<open>
  C10. For a summary whose \<open>start\<close> and \<open>end\<close> parse, with \<open>start \<le> end\<close>, the renderer does
  not throw, and the document it returns ends with the comment \<open>Contribution squares\<close>
  followed by exactly one \<open>rect\<close> element per day from \<open>calendarStart\<close> to \<open>end\<close>, in order.
  The element of index \<open>i\<close> is the one of the date \<open>i\<close> days after \<open>calendarStart\<close>: it stands
  in column \<open>i div 7\<close> and row \<open>i mod 7\<close>, its title names the date and the count, which is
  the entry of \<open>counts\<close> for that date or 0, and its fill is the colour of that count. For a
  date that is not a key of \<open>counts\<close> the title says \<open>0 contributions\<close> and the fill is
  \<open>#ebedf0\<close>, the first colour of the palette.
\<close>

theorem renderCalendarSVG_every_date:
  assumes p: "start p = Some s" "end_date p = Some e"
    and s: "parseDate s = Some st" and e: "parseDate e = Some en" and le: "st \<le> en"
  defines "c \<equiv> st - WeekDay st * msPerDay"
  defines "n \<equiv> (en - c) div msPerDay + 1"
  defines "mx \<equiv> maxCount_of (counts p)"
  shows "\<exists>pre rs.
      renderCalendarSVG p u =
        Inr (pre @ ''  <!-- Contribution squares -->'' @ [CHR 0x0A] @ ''  '' @ concat rs
             @ [CHR 0x0A] @ ''</svg>'')
    \<and> calendarStart_of (parseDate s) = Some c
    \<and> totalDays_of (Some c) (parseDate e) = Some n
    \<and> c + (n - 1) * msPerDay = en
    \<and> int (length rs) = n
    \<and> (\<forall>i. 0 \<le> i \<and> i < n \<longrightarrow>
         (\<exists>full isoDate k.
              date_at (Some c) i = Some (c + i * msPerDay)
            \<and> toISOString (Some (c + i * msPerDay)) = Inr full
            \<and> isoDate = take 10 full
            \<and> k = or_zero (map_get (counts p) isoDate)
            \<and> rs ! nat i =
                ''<rect x=\"'' @ show_int (44 + 16 * (i div 7)) @ ''\" y=\"''
                @ show_int (30 + 16 * (i mod 7))
                @ ''\" width=\"12\" height=\"12\" rx=\"2\" ry=\"2\" fill=\"''
                @ palette ! colorIndex (breaks mx) k 0
                @ ''\" stroke=\"#e6e6e6\" stroke-width=\"0.5\"><title>''
                @ show_int k @ '' contributions on '' @ isoDate @ ''</title></rect>''
                @ [CHR 0x0A]
            \<and> (isoDate \<notin> set (map_keys (counts p)) \<longrightarrow>
                rs ! nat i =
                  ''<rect x=\"'' @ show_int (44 + 16 * (i div 7)) @ ''\" y=\"''
                  @ show_int (30 + 16 * (i mod 7))
                  @ ''\" width=\"12\" height=\"12\" rx=\"2\" ry=\"2\" fill=\"#ebedf0\"''
                  @ '' stroke=\"#e6e6e6\" stroke-width=\"0.5\"><title>0 contributions on ''
                  @ isoDate @ ''</title></rect>'' @ [CHR 0x0A])))"
proof -
  note g = grid_facts[OF s e le, folded c_def, folded n_def]
  have cmid: "c = Day c * msPerDay" unfolding g(2) Day_mult ..
  let ?cell = "\<lambda>i. projr (cell_at (Some c) (counts p) mx i)"
  define rs where "rs = map (\<lambda>i. rect_svg (?cell i)) (day_indices (Some n))"
  from renderCalendarSVG_dates[OF p s e, of u] obtain mp where
    r: "renderCalendarSVG p u =
       Inr (svg_document (width_of (weeks_of (Some n))) u
              (concat (map month_label_svg (month_labels_of mp)))
              (concat (map weekday_label_svg weekdayLabels))
              (concat rs))"
    unfolding g(1) g(6) mx_def rs_def by blast
  from svg_document_tail obtain pre where
    pre: "svg_document (width_of (weeks_of (Some n))) u
              (concat (map month_label_svg (month_labels_of mp)))
              (concat (map weekday_label_svg weekdayLabels))
              (concat rs) =
       pre @ ''  <!-- Contribution squares -->'' @ [CHR 0x0A] @ ''  '' @ concat rs
             @ [CHR 0x0A] @ ''</svg>''"
    by blast
  have 1: "renderCalendarSVG p u =
        Inr (pre @ ''  <!-- Contribution squares -->'' @ [CHR 0x0A] @ ''  '' @ concat rs
             @ [CHR 0x0A] @ ''</svg>'')"
    unfolding r pre ..
  have 2: "calendarStart_of (parseDate s) = Some c" unfolding s by (rule g(1))
  have 3: "totalDays_of (Some c) (parseDate e) = Some n" unfolding e by (rule g(6))
  have 4: "c + (n - 1) * msPerDay = en" using g(8) by simp
  have 5: "int (length rs) = n" using g(9) by (simp add: rs_def day_indices_def)
  have 6: "\<exists>full isoDate k.
              date_at (Some c) i = Some (c + i * msPerDay)
            \<and> toISOString (Some (c + i * msPerDay)) = Inr full
            \<and> isoDate = take 10 full
            \<and> k = or_zero (map_get (counts p) isoDate)
            \<and> rs ! nat i =
                ''<rect x=\"'' @ show_int (44 + 16 * (i div 7)) @ ''\" y=\"''
                @ show_int (30 + 16 * (i mod 7))
                @ ''\" width=\"12\" height=\"12\" rx=\"2\" ry=\"2\" fill=\"''
                @ palette ! colorIndex (breaks mx) k 0
                @ ''\" stroke=\"#e6e6e6\" stroke-width=\"0.5\"><title>''
                @ show_int k @ '' contributions on '' @ isoDate @ ''</title></rect>''
                @ [CHR 0x0A]
            \<and> (isoDate \<notin> set (map_keys (counts p)) \<longrightarrow>
                rs ! nat i =
                  ''<rect x=\"'' @ show_int (44 + 16 * (i div 7)) @ ''\" y=\"''
                  @ show_int (30 + 16 * (i mod 7))
                  @ ''\" width=\"12\" height=\"12\" rx=\"2\" ry=\"2\" fill=\"#ebedf0\"''
                  @ '' stroke=\"#e6e6e6\" stroke-width=\"0.5\"><title>0 contributions on ''
                  @ isoDate @ ''</title></rect>'' @ [CHR 0x0A])"
    if i: "0 \<le> i \<and> i < n" for i
  proof -
    have "0 \<le> i * msPerDay" using i msPerDay_pos by simp
    moreover have "i * msPerDay \<le> (n - 1) * msPerDay"
      using i msPerDay_pos by (intro mult_right_mono) simp_all
    ultimately have "c \<le> c + i * msPerDay" "c + i * msPerDay \<le> en"
      using g(8) by simp_all
    then have "\<bar>c + i * msPerDay\<bar> \<le> 8640000000000000"
      using g(4) parseDate_Some(2)[OF e] by linarith
    then have d: "date_at (Some c) i = Some (c + i * msPerDay)" by (rule date_at_Some)
    from iso_at_Some[OF d] obtain full where
      full: "toISOString (Some (c + i * msPerDay)) = Inr full"
      and iso: "iso_at (Some c) i = Inr (take 10 full)"
      by blast
    define isoDate where "isoDate = take 10 full"
    define k where "k = or_zero (map_get (counts p) isoDate)"
    from cell_at_Some[OF d, of "counts p" mx] iso have
      cell: "cell_at (Some c) (counts p) mx i =
       Inr \<lparr>cell_iso = isoDate, cell_count = k,
            cell_dayOfWeek = Some (i mod 7), cell_weekIndex = i div 7,
            cell_x = paddingLeft + padding + (i div 7) * (rectSize + gap),
            cell_y = Some (paddingTop + padding + (i mod 7) * (rectSize + gap)),
            cell_fill = colorForCount mx k\<rparr>"
      unfolding isoDate_def k_def WeekDay_offset[OF g(5) cmid] using i by auto
    have "nat i < length [0..n - 1]" using i by simp
    moreover have "[0..n - 1] ! nat i = i" using i by simp
    ultimately have nth: "rs ! nat i = rect_svg (?cell i)"
      by (simp add: rs_def day_indices_def)
    have elem: "rs ! nat i =
                ''<rect x=\"'' @ show_int (44 + 16 * (i div 7)) @ ''\" y=\"''
                @ show_int (30 + 16 * (i mod 7))
                @ ''\" width=\"12\" height=\"12\" rx=\"2\" ry=\"2\" fill=\"''
                @ palette ! colorIndex (breaks mx) k 0
                @ ''\" stroke=\"#e6e6e6\" stroke-width=\"0.5\"><title>''
                @ show_int k @ '' contributions on '' @ isoDate @ ''</title></rect>''
                @ [CHR 0x0A]"
      unfolding nth cell sum.sel rect_svg_cell colorForCount_def ..
    have absent: "k = 0" if "isoDate \<notin> set (map_keys (counts p))"
    proof -
      from that have "map_get (counts p) isoDate = None"
        by (simp add: map_keys_def map_get_def map_of_eq_None_iff)
      then show ?thesis by (simp add: k_def or_zero_def)
    qed
    have zero: "show_int 0 = ''0''" by code_simp
    have first: "palette ! colorIndex (breaks mx) 0 0 = ''#ebedf0''"
      unfolding colorIndex_zero by (simp add: palette_def)
    have elem0: "rs ! nat i =
                  ''<rect x=\"'' @ show_int (44 + 16 * (i div 7)) @ ''\" y=\"''
                  @ show_int (30 + 16 * (i mod 7))
                  @ ''\" width=\"12\" height=\"12\" rx=\"2\" ry=\"2\" fill=\"#ebedf0\"''
                  @ '' stroke=\"#e6e6e6\" stroke-width=\"0.5\"><title>0 contributions on ''
                  @ isoDate @ ''</title></rect>'' @ [CHR 0x0A]"
      if "isoDate \<notin> set (map_keys (counts p))"
      unfolding elem absent[OF that] zero first by simp
    show ?thesis
      using d full isoDate_def k_def elem elem0 by blast
  qed
  show ?thesis
    using 1 2 3 4 5 6 by blast
qed


theorem renderCalendarSVG_every_date_witness:
  "parseDate ''2024-03-01'' = Some 1709251200000
   \<and> (\<exists>pre rs.
        renderCalendarSVG
           \<lparr>start = Some ''2024-03-01'', end_date = Some ''2024-03-01'', total = 10,
            counts = [(''2024-03-01'', 10)]\<rparr> ''donken'' =
          Inr (pre @ ''  <!-- Contribution squares -->'' @ [CHR 0x0A] @ ''  '' @ concat rs
               @ [CHR 0x0A] @ ''</svg>'')
      \<and> int (length rs) = 6
      \<and> rs ! 0 =
          ''<rect x=\"44\" y=\"30\" width=\"12\" height=\"12\" rx=\"2\" ry=\"2\" fill=\"#ebedf0\" stroke=\"#e6e6e6\" stroke-width=\"0.5\"><title>0 contributions on 2024-02-25</title></rect>''
          @ [CHR 0x0A]
      \<and> rs ! 5 =
          ''<rect x=\"44\" y=\"110\" width=\"12\" height=\"12\" rx=\"2\" ry=\"2\" fill=\"#216e39\" stroke=\"#e6e6e6\" stroke-width=\"0.5\"><title>10 contributions on 2024-03-01</title></rect>''
          @ [CHR 0x0A])"
proof -
  let ?p = "\<lparr>start = Some ''2024-03-01'', end_date = Some ''2024-03-01'', total = 10,
            counts = [(''2024-03-01'', 10)]\<rparr>"
  have ps: "start ?p = Some ''2024-03-01''" and pe: "end_date ?p = Some ''2024-03-01''"
    by simp_all
  have s: "parseDate ''2024-03-01'' = Some 1709251200000" by code_simp
  have le: "(1709251200000::int) \<le> 1709251200000" by simp
  have wd: "WeekDay 1709251200000 = 5" by code_simp
  have cv: "(1709251200000::int) - 5 * msPerDay = 1708819200000" by (simp add: msPerDay_def)
  have nv: "((1709251200000::int) - 1708819200000) div msPerDay + 1 = 6"
    by (simp add: msPerDay_def)
  have cn: "counts ?p = [(''2024-03-01'', 10)]" by simp
  have mx: "maxCount_of [(''2024-03-01'', 10)] = 10" by (simp add: maxCount_of_def)
  have d0: "(1708819200000::int) + 0 * msPerDay = 1708819200000" by simp
  have d5: "(1708819200000::int) + 5 * msPerDay = 1709251200000" by (simp add: msPerDay_def)
  have iso0: "toISOString (Some 1708819200000) = Inr ''2024-02-25T00:00:00.000Z''" by code_simp
  have iso5: "toISOString (Some 1709251200000) = Inr ''2024-03-01T00:00:00.000Z''" by code_simp
  have k0: "or_zero (map_get [(''2024-03-01'', 10)] ''2024-02-25'') = 0" by code_simp
  have k5: "or_zero (map_get [(''2024-03-01'', 10)] ''2024-03-01'') = 10" by code_simp
  have x: "show_int 44 = ''44''" by code_simp
  have y: "show_int 30 = ''30''" "show_int 110 = ''110''" by code_simp+
  have f: "palette ! colorIndex (breaks 10) 0 0 = ''#ebedf0''"
    "palette ! colorIndex (breaks 10) 10 0 = ''#216e39''"
    by code_simp+
  have t: "show_int 0 = ''0''" "show_int 10 = ''10''" by code_simp+
  note inst = renderCalendarSVG_every_date[OF ps pe s s le, of "''donken''",
      unfolded wd cv nv cn mx]
  from inst obtain pre rs where
    1: "renderCalendarSVG ?p ''donken'' =
          Inr (pre @ ''  <!-- Contribution squares -->'' @ [CHR 0x0A] @ ''  '' @ concat rs
               @ [CHR 0x0A] @ ''</svg>'')"
    and 2: "int (length rs) = 6"
    and 3: "\<forall>i. 0 \<le> i \<and> i < 6 \<longrightarrow>
         (\<exists>full isoDate k.
              toISOString (Some (1708819200000 + i * msPerDay)) = Inr full
            \<and> isoDate = take 10 full
            \<and> k = or_zero (map_get [(''2024-03-01'', 10)] isoDate)
            \<and> rs ! nat i =
                ''<rect x=\"'' @ show_int (44 + 16 * (i div 7)) @ ''\" y=\"''
                @ show_int (30 + 16 * (i mod 7))
                @ ''\" width=\"12\" height=\"12\" rx=\"2\" ry=\"2\" fill=\"''
                @ palette ! colorIndex (breaks 10) k 0
                @ ''\" stroke=\"#e6e6e6\" stroke-width=\"0.5\"><title>''
                @ show_int k @ '' contributions on '' @ isoDate @ ''</title></rect>''
                @ [CHR 0x0A])"
    by blast
  from 3[rule_format, of 0] have r0: "rs ! 0 =
          ''<rect x=\"44\" y=\"30\" width=\"12\" height=\"12\" rx=\"2\" ry=\"2\" fill=\"#ebedf0\" stroke=\"#e6e6e6\" stroke-width=\"0.5\"><title>0 contributions on 2024-02-25</title></rect>''
          @ [CHR 0x0A]"
    unfolding d0 iso0 by (auto simp: k0 x y f t)
  from 3[rule_format, of 5] have r5: "rs ! 5 =
          ''<rect x=\"44\" y=\"110\" width=\"12\" height=\"12\" rx=\"2\" ry=\"2\" fill=\"#216e39\" stroke=\"#e6e6e6\" stroke-width=\"0.5\"><title>10 contributions on 2024-03-01</title></rect>''
          @ [CHR 0x0A]"
    unfolding d5 iso5 by (auto simp: k5 x y f t)
  show ?thesis using s 1 2 r0 r5 by blast
qed

section \<open>Properties of the decimal strings\<close>

lemma digit_char_less:
  assumes "a < b" "b < 10"
  shows "''0123456789'' ! a < ''0123456789'' ! b"
proof -
  have v: "of_char (''0123456789'' ! k) = 48 + k" if "k < 10" for k :: nat
  proof -
    have "\<forall>k \<in> set [0..<10]. of_char (''0123456789'' ! k) = 48 + k" by code_simp
    then show ?thesis using that by simp
  qed
  have "a < 10" using assms by simp
  then show ?thesis using assms v[of a] v[of b] by (simp add: less_char_def)
qed

lemma digit_char_is_digit: "k < 10 \<Longrightarrow> ''0123456789'' ! k \<in> set ''0123456789''"
  by (rule nth_mem) simp

lemma digits_are_digits: "set (digits n) \<subseteq> set ''0123456789''"
proof (induction n rule: digits.induct)
  case (1 n)
  show ?case
  proof (cases "n < 10")
    case True
    then show ?thesis using digit_char_is_digit[of n] by (subst digits.simps) simp
  next
    case False
    have "n mod 10 < 10" by simp
    then show ?thesis
      using False "1.IH" digit_char_is_digit[of "n mod 10"] by (subst digits.simps) simp
  qed
qed

lemma pad_are_digits: "set (pad w n) \<subseteq> set ''0123456789''"
  using digits_are_digits[of "nat n"] by (auto simp: pad_def Let_def)

lemma no_dash_in_pad: "CHR ''-'' \<notin> set (pad w n)"
  using pad_are_digits[of w n] by auto

lemma pad_one: "0 \<le> n \<Longrightarrow> n < 10 \<Longrightarrow> pad 1 n = [''0123456789'' ! nat n]"
  by (subst pad_def, subst digits.simps) simp

lemma pad_Suc:
  assumes "0 \<le> n" "1 \<le> w"
  shows "pad (Suc w) n = pad w (n div 10) @ [''0123456789'' ! nat (n mod 10)]"
proof (cases "n < 10")
  case True
  then have d: "digits (nat n) = [''0123456789'' ! nat n]" by (subst digits.simps) simp
  have z: "digits 0 = ''0''" by (subst digits.simps) simp
  have "replicate w CHR ''0'' = replicate (w - 1) CHR ''0'' @ ''0''"
    using assms(2) by (cases w) (simp_all add: replicate_append_same)
  then show ?thesis using True assms(1) by (simp add: pad_def Let_def d z)
next
  case False
  have n: "nat n div 10 = nat (n div 10)" "nat n mod 10 = nat (n mod 10)"
    using assms(1) by (simp_all add: nat_div_distrib nat_mod_distrib)
  have d: "digits (nat n) = digits (nat (n div 10)) @ [''0123456789'' ! nat (n mod 10)]"
    using False by (subst digits.simps) (simp add: n)
  show ?thesis by (simp add: pad_def Let_def d)
qed

text \<open>Padded numbers of the same width are ordered as the numbers are.\<close>

lemma pad_order:
  "1 \<le> w \<Longrightarrow> 0 \<le> a \<Longrightarrow> a < 10 ^ w \<Longrightarrow>
     length (pad w a) = w \<and> (\<forall>b. a < b \<and> b < 10 ^ w \<longrightarrow> pad w a < pad w b)"
proof (induction w arbitrary: a rule: nat_induct_at_least)
  case base
  then have a: "0 \<le> a" "a < 10" by simp_all
  have pa: "pad 1 a = [''0123456789'' ! nat a]" using a by (rule pad_one)
  have "pad 1 a < pad 1 b" if "a < b \<and> b < 10 ^ 1" for b
  proof -
    have b: "0 \<le> b" "b < 10" using that a by simp_all
    then have "nat a < nat b" "nat b < 10" using that a by arith+
    then have "''0123456789'' ! nat a < ''0123456789'' ! nat b" by (rule digit_char_less)
    then show ?thesis unfolding pa pad_one[OF b] by simp
  qed
  moreover have "length (pad 1 a) = 1" unfolding pa by simp
  ultimately show ?case by blast
next
  case (Suc w)
  have a10: "0 \<le> a div 10" "a div 10 < 10 ^ w" using Suc.prems by simp_all
  note IH = Suc.IH[OF a10]
  have pa: "pad (Suc w) a = pad w (a div 10) @ [''0123456789'' ! nat (a mod 10)]"
    using Suc.prems Suc.hyps by (intro pad_Suc) simp_all
  have "pad (Suc w) a < pad (Suc w) b" if b: "a < b \<and> b < 10 ^ Suc w" for b
  proof -
    have b0: "0 \<le> b" using b Suc.prems by simp
    have pb: "pad (Suc w) b = pad w (b div 10) @ [''0123456789'' ! nat (b mod 10)]"
      using b0 Suc.hyps by (intro pad_Suc) simp_all
    have bw: "b < 10 ^ Suc w" using b by blast
    have b10: "0 \<le> b div 10" "b div 10 < 10 ^ w" using bw b0 by simp_all
    have lb: "length (pad w (b div 10)) = w" using Suc.IH[OF b10] by simp
    have le: "a div 10 \<le> b div 10" using b by (intro zdiv_mono1) simp_all
    show ?thesis
    proof (cases "a div 10 < b div 10")
      case True
      then have "pad w (a div 10) < pad w (b div 10)" using IH b10 by blast
      then have "(pad w (a div 10), pad w (b div 10)) \<in> lexord {(u, v). u < v}"
        by (simp add: list_less_def)
      then have "(pad w (a div 10) @ [''0123456789'' ! nat (a mod 10)],
                  pad w (b div 10) @ [''0123456789'' ! nat (b mod 10)]) \<in> lexord {(u, v). u < v}"
        using IH lb by (intro lexord_sufI) simp_all
      then show ?thesis unfolding pa pb by (simp add: list_less_def)
    next
      case False
      then have eq: "a div 10 = b div 10" using le by simp
      have "a = 10 * (a div 10) + a mod 10" "b = 10 * (b div 10) + b mod 10" by simp_all
      then have "a mod 10 < b mod 10" using b eq by linarith
      then have "nat (a mod 10) < nat (b mod 10)" "nat (b mod 10) < 10" by simp_all
      then have "''0123456789'' ! nat (a mod 10) < ''0123456789'' ! nat (b mod 10)"
        by (rule digit_char_less)
      then have "(pad w (b div 10) @ [''0123456789'' ! nat (a mod 10)],
                  pad w (b div 10) @ [''0123456789'' ! nat (b mod 10)]) \<in> lexord {(u, v). u < v}"
        by (intro lexord_append_left_rightI) simp
      then show ?thesis unfolding pa pb eq by (simp add: list_less_def)
    qed
  qed
  then show ?case using IH pa by simp
qed

lemma pad_length: "1 \<le> w \<Longrightarrow> 0 \<le> a \<Longrightarrow> a < 10 ^ w \<Longrightarrow> length (pad w a) = w"
  using pad_order by blast

lemma pad_less: "1 \<le> w \<Longrightarrow> 0 \<le> a \<Longrightarrow> a < b \<Longrightarrow> b < 10 ^ w \<Longrightarrow> pad w a < pad w b"
  using pad_order[of w a] by simp

lemma pad_mono: "1 \<le> w \<Longrightarrow> 0 \<le> a \<Longrightarrow> a \<le> b \<Longrightarrow> b < 10 ^ w \<Longrightarrow> pad w a \<le> pad w b"
  using pad_less[of w a b] by (cases "a = b") (simp_all add: less_imp_le)

text \<open>\<open>Number\<close> reads a padded number back.\<close>

lemma digit_value_char: "k < 10 \<Longrightarrow> digit_value (''0123456789'' ! k) = int k"
proof -
  assume "k < 10"
  then have "k \<in> {0, 1, 2, 3, 4, 5, 6, 7, 8, 9}" by auto
  then show ?thesis by (auto simp: digit_value_def)
qed

lemma Number_digits: "foldl (\<lambda>n c. 10 * n + digit_value c) 0 (digits k) = int k"
proof (induction k rule: digits.induct)
  case (1 n)
  show ?case
  proof (cases "n < 10")
    case True
    have "digits n = [''0123456789'' ! n]" using True by (subst digits.simps) simp
    then show ?thesis using True by (simp add: digit_value_char)
  next
    case False
    have "n mod 10 < 10" by simp
    then have d: "digit_value (''0123456789'' ! (n mod 10)) = int (n mod 10)"
      by (rule digit_value_char)
    have ds: "digits n = digits (n div 10) @ [''0123456789'' ! (n mod 10)]"
      using False by (subst digits.simps) simp
    have "foldl (\<lambda>n c. 10 * n + digit_value c) 0 (digits n) =
        10 * int (n div 10) + int (n mod 10)"
      unfolding ds foldl_append "1.IH"[OF False] by (simp only: foldl.simps d)
    also have "\<dots> = int (10 * (n div 10) + n mod 10)" by (simp only: of_nat_add of_nat_mult of_nat_numeral)
    also have "10 * (n div 10) + n mod 10 = n" by (rule mult_div_mod_eq)
    finally show ?thesis .
  qed
qed

lemma Number_zeros:
  "foldl (\<lambda>n c. 10 * n + digit_value c) 0 (replicate m CHR ''0'' @ ds) =
   foldl (\<lambda>n c. 10 * n + digit_value c) 0 ds"
  by (induction m) (simp_all add: digit_value_def)

lemma digits_not_Nil: "digits k \<noteq> []"
  by (subst digits.simps) simp

lemma Number_pad: "0 \<le> n \<Longrightarrow> Number (pad w n) = Some n"
proof -
  assume n: "0 \<le> n"
  have ne: "pad w n \<noteq> []" by (simp add: pad_def Let_def digits_not_Nil)
  have dg: "list_all is_digit (pad w n)"
    unfolding list_all_iff is_digit_def using pad_are_digits[of w n] by blast
  have v: "foldl (\<lambda>n c. 10 * n + digit_value c) 0 (pad w n) = n"
    unfolding pad_def Let_def Number_zeros Number_digits using n by simp
  show ?thesis
    unfolding Number_def if_not_P[OF ne] if_P[OF dg] v ..
qed

text \<open>Splitting at a separator that the pieces do not contain.\<close>

lemma split_no_sep: "sep \<notin> set xs \<Longrightarrow> split sep xs = [xs]"
  by (induction xs) auto

lemma split_at_sep: "sep \<notin> set xs \<Longrightarrow> split sep (xs @ sep # ys) = xs # split sep ys"
  by (induction xs) auto

section \<open>Properties of the month keys\<close>

lemma DateFromTime_range: "1 \<le> DateFromTime t" "DateFromTime t \<le> 31"
proof -
  note b = DayWithinYear_bounds[of t]
  have l: "InLeapYear t = (if DaysInYear (YearFromTime t) = 365 then 0 else 1)"
    by (simp add: InLeapYear_def)
  have d: "DaysInYear (YearFromTime t) = 365 + InLeapYear t"
    using leap_cases[of "YearFromTime t"] by (auto simp: l)
  have il: "InLeapYear t = 0 \<or> InLeapYear t = 1" by (simp add: l)
  show "1 \<le> DateFromTime t" "DateFromTime t \<le> 31"
    using b il unfolding d DateFromTime_def MonthFromTime_def Let_def
    by (auto split: if_splits)
qed

lemma MonthFromTime_mono:
  assumes "YearFromTime t = YearFromTime t'" "Day t \<le> Day t'"
  shows "MonthFromTime t \<le> MonthFromTime t'"
proof -
  have l: "InLeapYear t = InLeapYear t'" using assms(1) by (simp add: InLeapYear_def)
  have d: "DayWithinYear t \<le> DayWithinYear t'" using assms by (simp add: DayWithinYear_def)
  show ?thesis
    unfolding MonthFromTime_def Let_def l using d by (simp split: if_splits)
qed

text \<open>The first ten characters of the ISO string of a date in the years 0 to 9999, and
  the month key the loop makes of them.\<close>

lemma iso_date_string:
  assumes "0 \<le> YearFromTime t" "YearFromTime t \<le> 9999"
  shows "\<exists>s. toISOString (Some t) = Inr s \<and>
     take 10 s = pad 4 (YearFromTime t) @ ''-'' @ pad 2 (MonthFromTime t + 1) @ ''-''
       @ pad 2 (DateFromTime t)"
proof -
  have ly: "length (pad 4 (YearFromTime t)) = 4" using assms by (intro pad_length) simp_all
  have lm: "length (pad 2 (MonthFromTime t + 1)) = 2"
    using MonthFromTime_range[of t] by (intro pad_length) simp_all
  have ld: "length (pad 2 (DateFromTime t)) = 2"
    using DateFromTime_range[of t] by (intro pad_length) simp_all
  have ys: "year_string (YearFromTime t) = pad 4 (YearFromTime t)"
    using assms by (simp add: year_string_def)
  show ?thesis
    by (simp add: toISOString_def ys ly lm ld)
qed

lemma monthKey_of_iso:
  "monthKey_of (pad 4 y @ ''-'' @ pad 2 m @ ''-'' @ pad 2 d) = pad 4 y @ ''-'' @ pad 2 m"
proof -
  have "split CHR ''-'' (pad 4 y @ CHR ''-'' # pad 2 m @ CHR ''-'' # pad 2 d) =
      [pad 4 y, pad 2 m, pad 2 d]"
    by (simp add: split_at_sep split_no_sep no_dash_in_pad)
  then show ?thesis by (simp add: monthKey_of_def Let_def str_at_def array_get_def)
qed

text \<open>Month keys of four-digit years are ordered as the months are.\<close>

lemma month_key_mono:
  assumes "0 \<le> YearFromTime t" "YearFromTime t' \<le> 9999" "Day t \<le> Day t'"
  shows "pad 4 (YearFromTime t) @ ''-'' @ pad 2 (MonthFromTime t + 1)
       \<le> pad 4 (YearFromTime t') @ ''-'' @ pad 2 (MonthFromTime t' + 1)"
proof -
  note ym = YearFromTime_mono[OF assms(3)]
  show ?thesis
  proof (cases "YearFromTime t = YearFromTime t'")
    case True
    have "MonthFromTime t + 1 \<le> MonthFromTime t' + 1"
      using MonthFromTime_mono[OF True assms(3)] by simp
    then have "pad 2 (MonthFromTime t + 1) \<le> pad 2 (MonthFromTime t' + 1)"
      using MonthFromTime_range[of t] MonthFromTime_range[of t'] by (intro pad_mono) simp_all
    then show ?thesis
      unfolding True list_le_def list_less_def
      by (auto intro!: lexord_append_leftI)
  next
    case False
    then have lt: "YearFromTime t < YearFromTime t'" using ym by simp
    then have "pad 4 (YearFromTime t) < pad 4 (YearFromTime t')"
      using assms by (intro pad_less) simp_all
    moreover have "length (pad 4 (YearFromTime t')) = 4" "length (pad 4 (YearFromTime t)) = 4"
      using assms lt by (simp_all add: pad_length)
    ultimately have "(pad 4 (YearFromTime t) @ ''-'' @ pad 2 (MonthFromTime t + 1),
        pad 4 (YearFromTime t') @ ''-'' @ pad 2 (MonthFromTime t' + 1)) \<in> lexord {(u, v). u < v}"
      unfolding list_less_def by (intro lexord_sufI) simp_all
    then show ?thesis by (simp add: list_le_def list_less_def)
  qed
qed

section \<open>Properties of the month labels\<close>

lemma firsts_subset: "set (firsts K S ixs) \<subseteq> set ixs"
  by (induction ixs arbitrary: S) auto

lemma firsts_sorted: "sorted_wrt (<) ixs \<Longrightarrow> sorted_wrt (<) (firsts K S ixs)"
proof (induction ixs arbitrary: S)
  case Nil
  show ?case by simp
next
  case (Cons a ixs)
  then show ?case using firsts_subset[of K "insert (K a) S" ixs] by auto
qed

lemma firsts_set:
  "sorted_wrt (<) ixs \<Longrightarrow>
   set (firsts K S ixs) = {i \<in> set ixs. K i \<notin> S \<and> (\<forall>j \<in> set ixs. j < i \<longrightarrow> K j \<noteq> K i)}"
proof (induction ixs arbitrary: S)
  case Nil
  show ?case by simp
next
  case (Cons a ixs)
  then have gt: "\<forall>i \<in> set ixs. a < i" and srt: "sorted_wrt (<) ixs" by simp_all
  show ?case
  proof (cases "K a \<in> S")
    case True
    then show ?thesis using Cons.IH[OF srt, of S] gt by auto
  next
    case False
    then show ?thesis using Cons.IH[OF srt, of "insert (K a) S"] gt by auto
  qed
qed

lemma firsts_fresh: "K ` set (firsts K S ixs) \<inter> S = {}"
  by (induction ixs arbitrary: S) auto

lemma firsts_distinct: "distinct (map K (firsts K S ixs))"
proof (induction ixs arbitrary: S)
  case Nil
  show ?case by simp
next
  case (Cons a ixs)
  then show ?case using firsts_fresh[of K "insert (K a) S" ixs] by auto
qed

lemma firsts_cover: "K ` set ixs \<subseteq> S \<union> K ` set (firsts K S ixs)"
proof (induction ixs arbitrary: S)
  case Nil
  show ?case by simp
next
  case (Cons a ixs)
  show ?case
  proof (cases "K a \<in> S")
    case True
    then show ?thesis using Cons.IH[of S] by auto
  next
    case False
    then show ?thesis using Cons.IH[of "insert (K a) S"] by auto
  qed
qed

text \<open>The loop of lines 172 to 182 appends, for each first occurrence of a month key,
  the key with the column of that index.\<close>

lemma month_step_eq:
  assumes "iso_at cs i = Inr s"
  shows "month_step cs mp i =
     Inr (if month_key_at cs i \<in> set (map_keys mp) then mp
          else mp @ [(month_key_at cs i, i div 7)])"
proof -
  have "month_key_at cs i \<notin> set (map_keys mp) \<Longrightarrow>
    map_set mp (month_key_at cs i) (i div 7) = mp @ [(month_key_at cs i, i div 7)]"
    by (rule map_set_fresh) (simp add: map_keys_def)
  then show ?thesis
    using assms by (simp add: month_step_def month_key_at_def Let_def floor_sevenths)
qed

lemma month_loop:
  assumes "\<forall>i \<in> set ixs. \<exists>s. iso_at cs i = Inr s"
  shows "for_each (month_step cs) mp ixs =
     Inr (mp @ map (\<lambda>i. (month_key_at cs i, i div 7))
                 (firsts (month_key_at cs) (set (map_keys mp)) ixs))"
  using assms
proof (induction ixs arbitrary: mp)
  case Nil
  show ?case by simp
next
  case (Cons i ixs)
  then obtain s where s: "iso_at cs i = Inr s" by auto
  from Cons.prems have rest: "\<forall>i \<in> set ixs. \<exists>s. iso_at cs i = Inr s" by simp
  show ?case
  proof (cases "month_key_at cs i \<in> set (map_keys mp)")
    case True
    then show ?thesis using Cons.IH[OF rest, of mp] by (simp add: month_step_eq[OF s])
  next
    case False
    have "set (map_keys (mp @ [(month_key_at cs i, i div 7)])) =
        insert (month_key_at cs i) (set (map_keys mp))"
      by (simp add: map_keys_def)
    then show ?thesis
      using False Cons.IH[OF rest, of "mp @ [(month_key_at cs i, i div 7)]"]
      by (simp add: month_step_eq[OF s])
  qed
qed

lemma map_of_keyed:
  assumes "distinct (map K xs)" "i \<in> set xs"
  shows "map_of (map (\<lambda>i. (K i, f i)) xs) (K i) = Some (f i)"
proof -
  have "distinct (map fst (map (\<lambda>i. (K i, f i)) xs))" using assms(1) by (simp add: comp_def)
  moreover have "(K i, f i) \<in> set (map (\<lambda>i. (K i, f i)) xs)" using assms(2) by auto
  ultimately show ?thesis by (rule map_of_is_SomeI)
qed

lemma DayFromYear_0: "DayFromYear 0 = - 719528"
  by (simp add: DayFromYear_def)

lemma YearFromTime_nonneg: "- 719528 \<le> Day t \<Longrightarrow> 0 \<le> YearFromTime t"
proof (rule ccontr)
  assume d: "- 719528 \<le> Day t" and "\<not> 0 \<le> YearFromTime t"
  then have "DayFromYear (YearFromTime t + 1) \<le> DayFromYear 0"
    by (intro DayFromYear_mono) simp
  then show False using YearFromTime_bounds(2)[of t] d by (simp add: DayFromYear_0)
qed

text \<open>The label of a month key \<open>YYYY-MM\<close>.\<close>

lemma show_int_16: "show_int 16 = ''16''"
  by code_simp

lemma month_label_key:
  assumes "map_get mp (pad 4 y @ ''-'' @ pad 2 (m + 1)) = Some w" "0 \<le> m" "m \<le> 11"
  shows "month_label_svg (month_label_of mp (pad 4 y @ ''-'' @ pad 2 (m + 1))) =
     ''<text x=\"'' @ show_int (44 + 16 * w)
     @ ''\" y=\"16\" font-family=\"Arial, Helvetica, sans-serif\" font-size=\"11\" fill=\"#6a737d\">''
     @ monthNames ! nat m @ ''</text>'' @ [CHR 0x0A]"
proof -
  have sp: "split CHR ''-'' (pad 4 y @ CHR ''-'' # pad 2 (m + 1)) = [pad 4 y, pad 2 (m + 1)]"
    by (simp add: split_at_sep split_no_sep no_dash_in_pad)
  have nm: "Number (pad 2 (m + 1)) = Some (m + 1)" using assms(2) by (intro Number_pad) simp
  have len: "length monthNames = 12" by (simp add: monthNames_def)
  have x: "paddingLeft + padding + w * (rectSize + gap) = 44 + 16 * w"
    by (simp add: paddingLeft_def padding_def rectSize_def gap_def)
  have ty: "show_int (max 12 (paddingTop - 6)) = ''16''"
    unfolding paddingTop_def using show_int_16 by simp
  have lab: "month_label_of mp (pad 4 y @ CHR ''-'' # pad 2 (m + 1)) =
      \<lparr>label_key = pad 4 y @ CHR ''-'' # pad 2 (m + 1), label_weekIndex = Some w,
       label_x = Some (44 + 16 * w), label_text = monthNames ! nat m\<rparr>"
    using assms
    by (simp add: month_label_of_def Let_def sp nm num_at_def array_get_def num_sub_def
        num_add_def str_at_def len x)
  show ?thesis
    using lab by (simp add: month_label_svg_def ty show_num_def)
qed

text \<open>The document, for a width that is a number.\<close>

lemma show_int_142: "show_int 142 = ''142''"
  by code_simp

lemma svg_document_eq:
  "svg_document (Some w) u ml wl rects =
     ''<?xml version=\"1.0\" encoding=\"UTF-8\"?>'' @ [CHR 0x0A]
     @ ''<svg xmlns=\"http://www.w3.org/2000/svg\" width=\"'' @ show_int w
     @ ''\" height=\"142\" viewBox=\"0 0 '' @ show_int w
     @ '' 142\" role=\"img\" aria-label=\"Combined contributions calendar for ''
     @ u @ ''\">'' @ [CHR 0x0A]
     @ ''  <rect width=\"100%\" height=\"100%\" fill=\"transparent\"/>'' @ [CHR 0x0A]
     @ ''  <!-- Month labels -->'' @ [CHR 0x0A]
     @ ''  '' @ ml @ [CHR 0x0A]
     @ ''  <!-- Weekday labels -->''
     @ ([CHR 0x0A] @ ''  '' @ wl @ [CHR 0x0A]
        @ ''  <!-- Contribution squares -->'' @ [CHR 0x0A]
        @ ''  '' @ rects @ [CHR 0x0A] @ ''</svg>'')"
proof -
  have h: "show_int height = ''142''"
    unfolding height_def paddingTop_def padding_def rectSize_def gap_def
    using show_int_142 by simp
  show ?thesis
    unfolding svg_document_def h by (simp add: show_num_def)
qed

text \<open>
  C6. For a summary whose \<open>start\<close> and \<open>end\<close> parse, with \<open>start \<le> end\<close> and the year of \<open>end\<close>
  at most 9999: the loop scans the days from \<open>calendarStart\<close> to \<open>end\<close> in order and records,
  for each index \<open>i\<close> whose month key \<open>YYYY-MM\<close> has not occurred at an earlier index, that key
  with the column \<open>i div 7\<close>. The document starts with its header and, after the comment
  \<open>Month labels\<close>, holds exactly one \<open>text\<close> element per distinct month key of the range
  and nothing else before the comment \<open>Weekday labels\<close>; the elements stand in the order of
  the first indices, which is the order of the keys, each at the column of the first index of
  its key and with the name of the month of that day.
\<close>

theorem month_labels_first_occurrence:
  assumes p: "start p = Some s" "end_date p = Some e"
    and s: "parseDate s = Some st" and e: "parseDate e = Some en" and le: "st \<le> en"
    and y: "YearFromTime en \<le> 9999"
  defines "c \<equiv> st - WeekDay st * msPerDay"
  defines "n \<equiv> (en - c) div msPerDay + 1"
  shows "\<exists>fi ls post.
      renderCalendarSVG p u =
        Inr (''<?xml version=\"1.0\" encoding=\"UTF-8\"?>'' @ [CHR 0x0A]
             @ ''<svg xmlns=\"http://www.w3.org/2000/svg\" width=\"''
             @ show_int (44 + 16 * ((n + 6) div 7))
             @ ''\" height=\"142\" viewBox=\"0 0 '' @ show_int (44 + 16 * ((n + 6) div 7))
             @ '' 142\" role=\"img\" aria-label=\"Combined contributions calendar for ''
             @ u @ ''\">'' @ [CHR 0x0A]
             @ ''  <rect width=\"100%\" height=\"100%\" fill=\"transparent\"/>'' @ [CHR 0x0A]
             @ ''  <!-- Month labels -->'' @ [CHR 0x0A]
             @ ''  '' @ concat ls @ [CHR 0x0A]
             @ ''  <!-- Weekday labels -->'' @ post)
    \<and> calendarStart_of (parseDate s) = Some c
    \<and> totalDays_of (Some c) (parseDate e) = Some n
    \<and> fi = firsts (month_key_at (Some c)) {} [0..n - 1]
    \<and> sorted_wrt (<) fi
    \<and> set fi = {i. 0 \<le> i \<and> i < n
                 \<and> (\<forall>j. 0 \<le> j \<and> j < i \<longrightarrow> month_key_at (Some c) j \<noteq> month_key_at (Some c) i)}
    \<and> distinct (map (month_key_at (Some c)) fi)
    \<and> month_key_at (Some c) ` set fi = month_key_at (Some c) ` {i. 0 \<le> i \<and> i < n}
    \<and> sorted (map (month_key_at (Some c)) fi)
    \<and> monthPositions_of (Some c) (Some n) =
          Inr (map (\<lambda>i. (month_key_at (Some c) i, i div 7)) fi)
    \<and> length ls = length fi
    \<and> (\<forall>k. k < length fi \<longrightarrow>
          ls ! k =
            ''<text x=\"'' @ show_int (44 + 16 * (fi ! k div 7))
            @ ''\" y=\"16\" font-family=\"Arial, Helvetica, sans-serif\" font-size=\"11\" fill=\"#6a737d\">''
            @ monthNames ! nat (MonthFromTime (c + fi ! k * msPerDay))
            @ ''</text>'' @ [CHR 0x0A])
    \<and> (\<forall>i. 0 \<le> i \<and> i < n \<longrightarrow>
          month_key_at (Some c) i =
            pad 4 (YearFromTime (c + i * msPerDay)) @ ''-''
            @ pad 2 (MonthFromTime (c + i * msPerDay) + 1))"
proof -
  note g = grid_facts[OF s e le, folded c_def, folded n_def]
  let ?K = "month_key_at (Some c)"
  let ?ixs = "[0..n - 1]"
  have cmid: "c = Day c * msPerDay" unfolding g(2) Day_mult ..
  have ixs: "set ?ixs = {i. 0 \<le> i \<and> i < n}" by auto
  have srt: "sorted_wrt (<) ?ixs" by (rule sorted_wrt_upto)
  have dayc: "- 719528 \<le> Day c"
    using parseDate_Some(3)[OF s] WeekDay_range(2)[of st] unfolding g(2) Day_mult by simp
  have emid: "en = Day en * msPerDay" by (rule parseDate_Some(1)[OF e])
  have in_range: "date_at (Some c) i = Some (c + i * msPerDay)
      \<and> Day (c + i * msPerDay) = Day c + i
      \<and> 0 \<le> YearFromTime (c + i * msPerDay) \<and> YearFromTime (c + i * msPerDay) \<le> 9999"
    if i: "0 \<le> i \<and> i < n" for i
  proof -
    have "0 \<le> i * msPerDay" using i msPerDay_pos by simp
    moreover have "i * msPerDay \<le> (n - 1) * msPerDay"
      using i msPerDay_pos by (intro mult_right_mono) simp_all
    ultimately have b: "c \<le> c + i * msPerDay" "c + i * msPerDay \<le> en"
      using g(8) by simp_all
    then have "\<bar>c + i * msPerDay\<bar> \<le> 8640000000000000"
      using g(4) parseDate_Some(2)[OF e] by linarith
    then have d: "date_at (Some c) i = Some (c + i * msPerDay)" by (rule date_at_Some)
    have "c + i * msPerDay = (Day c + i) * msPerDay"
      using cmid by (simp add: algebra_simps)
    then have day: "Day (c + i * msPerDay) = Day c + i" by (simp only: Day_mult)
    have "Day en = Day c + (n - 1)" using g(7) by simp
    then have "Day (c + i * msPerDay) \<le> Day en" using day i by simp
    then have "YearFromTime (c + i * msPerDay) \<le> YearFromTime en" by (rule YearFromTime_mono)
    moreover have "0 \<le> YearFromTime (c + i * msPerDay)"
      using dayc day i by (intro YearFromTime_nonneg) simp
    ultimately show ?thesis using d day y by simp
  qed
  have key: "iso_at (Some c) i = Inr (pad 4 (YearFromTime (c + i * msPerDay)) @ ''-''
            @ pad 2 (MonthFromTime (c + i * msPerDay) + 1) @ ''-''
            @ pad 2 (DateFromTime (c + i * msPerDay)))
      \<and> ?K i = pad 4 (YearFromTime (c + i * msPerDay)) @ ''-''
            @ pad 2 (MonthFromTime (c + i * msPerDay) + 1)"
    if i: "0 \<le> i \<and> i < n" for i
  proof -
    note r = in_range[OF i]
    from iso_date_string[of "c + i * msPerDay"] r obtain str where
      "toISOString (Some (c + i * msPerDay)) = Inr str"
      "take 10 str = pad 4 (YearFromTime (c + i * msPerDay)) @ ''-''
            @ pad 2 (MonthFromTime (c + i * msPerDay) + 1) @ ''-''
            @ pad 2 (DateFromTime (c + i * msPerDay))"
      by blast
    then have iso: "iso_at (Some c) i = Inr (pad 4 (YearFromTime (c + i * msPerDay)) @ ''-''
            @ pad 2 (MonthFromTime (c + i * msPerDay) + 1) @ ''-''
            @ pad 2 (DateFromTime (c + i * msPerDay)))"
      using r by (simp add: iso_at_def)
    have "?K i = pad 4 (YearFromTime (c + i * msPerDay)) @ ''-''
            @ pad 2 (MonthFromTime (c + i * msPerDay) + 1)"
      unfolding month_key_at_def iso sum.case by (rule monthKey_of_iso)
    with iso show ?thesis by blast
  qed
  have mono: "?K i \<le> ?K j" if "0 \<le> i" "i \<le> j" "j < n" for i j
  proof -
    have i: "0 \<le> i \<and> i < n" and j: "0 \<le> j \<and> j < n" using that by simp_all
    note ri = in_range[OF i] and rj = in_range[OF j]
    have dd: "Day (c + i * msPerDay) \<le> Day (c + j * msPerDay)" using ri rj that by simp
    have y0: "0 \<le> YearFromTime (c + i * msPerDay)" using ri by blast
    have y1: "YearFromTime (c + j * msPerDay) \<le> 9999" using rj by blast
    show ?thesis
      unfolding conjunct2[OF key[OF i]] conjunct2[OF key[OF j]]
      by (rule month_key_mono[OF y0 y1 dd])
  qed
  define fi where "fi = firsts ?K {} ?ixs"
  define mp where "mp = map (\<lambda>i. (?K i, i div 7)) fi"
  define ls where "ls = map month_label_svg (month_labels_of mp)"
  have all_iso: "\<forall>i \<in> set ?ixs. \<exists>str. iso_at (Some c) i = Inr str"
    using key by auto
  have mpv: "monthPositions_of (Some c) (Some n) = Inr mp"
    using month_loop[OF all_iso, of "[]"]
    by (simp add: monthPositions_of_def day_indices_def map_keys_def mp_def fi_def)
  have fi_sub: "set fi \<subseteq> {i. 0 \<le> i \<and> i < n}"
    using firsts_subset[of ?K "{}" ?ixs] unfolding fi_def ixs .
  have 4: "sorted_wrt (<) fi" unfolding fi_def using srt by (rule firsts_sorted)
  have 5: "set fi = {i. 0 \<le> i \<and> i < n \<and> (\<forall>j. 0 \<le> j \<and> j < i \<longrightarrow> ?K j \<noteq> ?K i)}"
    unfolding fi_def firsts_set[OF srt] by auto
  have 6: "distinct (map ?K fi)" unfolding fi_def by (rule firsts_distinct)
  have "?K ` set ?ixs \<subseteq> ?K ` set fi"
    using firsts_cover[of ?K ?ixs "{}"] by (simp add: fi_def)
  then have 7: "?K ` set fi = ?K ` {i. 0 \<le> i \<and> i < n}"
    using fi_sub unfolding ixs by blast
  have keys: "map_keys mp = map ?K fi" by (simp add: mp_def map_keys_def comp_def)
  have "sorted_wrt (\<lambda>i j. ?K i \<le> ?K j) fi"
  proof (rule sorted_wrt_mono_rel[OF _ 4])
    fix i j assume "i \<in> set fi" "j \<in> set fi" "i < j"
    then show "?K i \<le> ?K j" using fi_sub by (intro mono) auto
  qed
  then have 8: "sorted (map ?K fi)" by (simp add: sorted_map)
  then have sort_id: "sort (map_keys mp) = map ?K fi" unfolding keys by (rule sorted_sort_id)
  have labels: "month_labels_of mp = map (\<lambda>i. month_label_of mp (?K i)) fi"
    by (simp add: month_labels_of_def sort_id comp_def)
  have 10: "length ls = length fi" by (simp add: ls_def labels)
  have 11: "ls ! k =
            ''<text x=\"'' @ show_int (44 + 16 * (fi ! k div 7))
            @ ''\" y=\"16\" font-family=\"Arial, Helvetica, sans-serif\" font-size=\"11\" fill=\"#6a737d\">''
            @ monthNames ! nat (MonthFromTime (c + fi ! k * msPerDay))
            @ ''</text>'' @ [CHR 0x0A]"
    if k: "k < length fi" for k
  proof -
    define i where "i = fi ! k"
    have mem: "i \<in> set fi" unfolding i_def using k by (rule nth_mem)
    then have i: "0 \<le> i \<and> i < n" using fi_sub by auto
    have nth: "ls ! k = month_label_svg (month_label_of mp (?K i))"
      using k by (simp add: ls_def labels i_def)
    have col: "map_get mp (?K i) = Some (i div 7)"
      using map_of_keyed[OF 6 mem, of "\<lambda>i. i div 7"] by (simp add: map_get_def mp_def)
    note kf = conjunct2[OF key[OF i]]
    show ?thesis
      unfolding nth i_def[symmetric]
      using col MonthFromTime_range[of "c + i * msPerDay"] unfolding kf
      by (rule month_label_key)
  qed
  have 12: "\<forall>i. 0 \<le> i \<and> i < n \<longrightarrow>
          ?K i = pad 4 (YearFromTime (c + i * msPerDay)) @ ''-''
            @ pad 2 (MonthFromTime (c + i * msPerDay) + 1)"
    using key by blast
  from renderCalendarSVG_dates[OF p s e, of u] obtain mp' where
    mp': "monthPositions_of (Some c) (Some n) = Inr mp'" and
    r: "renderCalendarSVG p u =
       Inr (svg_document (width_of (weeks_of (Some n))) u
              (concat (map month_label_svg (month_labels_of mp')))
              (concat (map weekday_label_svg weekdayLabels))
              (concat (map (\<lambda>i. rect_svg (projr (cell_at (Some c) (counts p)
                   (maxCount_of (counts p)) i))) (day_indices (Some n)))))"
    unfolding g(1) g(6) by blast
  have same: "mp' = mp" using mp' mpv by simp
  have w: "width_of (weeks_of (Some n)) = Some (44 + 16 * ((n + 6) div 7))"
    by (simp add: weeks_of_Some width_of_def paddingLeft_def padding_def rectSize_def gap_def)
  have 1: "\<exists>post. renderCalendarSVG p u =
        Inr (''<?xml version=\"1.0\" encoding=\"UTF-8\"?>'' @ [CHR 0x0A]
             @ ''<svg xmlns=\"http://www.w3.org/2000/svg\" width=\"''
             @ show_int (44 + 16 * ((n + 6) div 7))
             @ ''\" height=\"142\" viewBox=\"0 0 '' @ show_int (44 + 16 * ((n + 6) div 7))
             @ '' 142\" role=\"img\" aria-label=\"Combined contributions calendar for ''
             @ u @ ''\">'' @ [CHR 0x0A]
             @ ''  <rect width=\"100%\" height=\"100%\" fill=\"transparent\"/>'' @ [CHR 0x0A]
             @ ''  <!-- Month labels -->'' @ [CHR 0x0A]
             @ ''  '' @ concat ls @ [CHR 0x0A]
             @ ''  <!-- Weekday labels -->'' @ post)"
    unfolding r same w svg_document_eq ls_def by (intro exI) (rule refl)
  have 2: "calendarStart_of (parseDate s) = Some c" unfolding s by (rule g(1))
  have 3: "totalDays_of (Some c) (parseDate e) = Some n" unfolding e by (rule g(6))
  have 9: "monthPositions_of (Some c) (Some n) = Inr (map (\<lambda>i. (?K i, i div 7)) fi)"
    using mpv unfolding mp_def .
  from 1 obtain post where 1: "renderCalendarSVG p u =
        Inr (''<?xml version=\"1.0\" encoding=\"UTF-8\"?>'' @ [CHR 0x0A]
             @ ''<svg xmlns=\"http://www.w3.org/2000/svg\" width=\"''
             @ show_int (44 + 16 * ((n + 6) div 7))
             @ ''\" height=\"142\" viewBox=\"0 0 '' @ show_int (44 + 16 * ((n + 6) div 7))
             @ '' 142\" role=\"img\" aria-label=\"Combined contributions calendar for ''
             @ u @ ''\">'' @ [CHR 0x0A]
             @ ''  <rect width=\"100%\" height=\"100%\" fill=\"transparent\"/>'' @ [CHR 0x0A]
             @ ''  <!-- Month labels -->'' @ [CHR 0x0A]
             @ ''  '' @ concat ls @ [CHR 0x0A]
             @ ''  <!-- Weekday labels -->'' @ post)" by blast
  show ?thesis
    using 1 2 3 fi_def 4 5 6 7 8 9 10 11 12 by blast
qed

theorem month_labels_first_occurrence_witness:
  "parseDate ''2024-01-22'' = Some 1705881600000
   \<and> parseDate ''2024-02-02'' = Some 1706832000000
   \<and> YearFromTime 1706832000000 \<le> 9999
   \<and> firsts (month_key_at (Some 1705795200000)) {} [0..12] = [0, 11]
   \<and> month_key_at (Some 1705795200000) 10 = ''2024-01''
   \<and> month_key_at (Some 1705795200000) 11 = ''2024-02''
   \<and> monthPositions_of (Some 1705795200000) (Some 13) = Inr [(''2024-01'', 0), (''2024-02'', 1)]
   \<and> (\<exists>post. renderCalendarSVG
          \<lparr>start = Some ''2024-01-22'', end_date = Some ''2024-02-02'', total = 3,
           counts = [(''2024-01-22'', 1), (''2024-02-02'', 2)]\<rparr> ''donken'' =
        Inr (''<?xml version=\"1.0\" encoding=\"UTF-8\"?>'' @ [CHR 0x0A]
             @ ''<svg xmlns=\"http://www.w3.org/2000/svg\" width=\"76\" height=\"142\" viewBox=\"0 0 76 142\" role=\"img\" aria-label=\"Combined contributions calendar for donken\">''
             @ [CHR 0x0A]
             @ ''  <rect width=\"100%\" height=\"100%\" fill=\"transparent\"/>'' @ [CHR 0x0A]
             @ ''  <!-- Month labels -->'' @ [CHR 0x0A]
             @ ''  <text x=\"44\" y=\"16\" font-family=\"Arial, Helvetica, sans-serif\" font-size=\"11\" fill=\"#6a737d\">Jan</text>''
             @ [CHR 0x0A]
             @ ''<text x=\"60\" y=\"16\" font-family=\"Arial, Helvetica, sans-serif\" font-size=\"11\" fill=\"#6a737d\">Feb</text>''
             @ [CHR 0x0A] @ [CHR 0x0A]
             @ ''  <!-- Weekday labels -->'' @ post))"
proof -
  let ?p = "\<lparr>start = Some ''2024-01-22'', end_date = Some ''2024-02-02'', total = 3,
           counts = [(''2024-01-22'', 1), (''2024-02-02'', 2)]\<rparr>"
  have ps: "start ?p = Some ''2024-01-22''" and pe: "end_date ?p = Some ''2024-02-02''"
    by simp_all
  have s: "parseDate ''2024-01-22'' = Some 1705881600000" by code_simp
  have e: "parseDate ''2024-02-02'' = Some 1706832000000" by code_simp
  have le: "(1705881600000::int) \<le> 1706832000000" by simp
  have y: "YearFromTime 1706832000000 \<le> 9999" by code_simp
  have wd: "WeekDay 1705881600000 = 1" by code_simp
  have cv: "(1705881600000::int) - 1 * msPerDay = 1705795200000" by (simp add: msPerDay_def)
  have nv: "((1706832000000::int) - 1705795200000) div msPerDay + 1 = 13"
    by (simp add: msPerDay_def)
  have ix: "(13::int) - 1 = 12" by simp
  have fv: "firsts (month_key_at (Some 1705795200000)) {} [0..12] = [0, 11]" by code_simp
  have k0: "month_key_at (Some 1705795200000) 0 = ''2024-01''" by code_simp
  have k10: "month_key_at (Some 1705795200000) 10 = ''2024-01''" by code_simp
  have k11: "month_key_at (Some 1705795200000) 11 = ''2024-02''" by code_simp
  have m0: "MonthFromTime 1705795200000 = 0" by code_simp
  have m11: "MonthFromTime (1705795200000 + 11 * msPerDay) = 1" by code_simp
  have names: "monthNames ! 0 = ''Jan''" "monthNames ! Suc 0 = ''Feb''"
    by (simp_all add: monthNames_def)
  have nums: "show_int 76 = ''76''" "show_int 44 = ''44''" "show_int 60 = ''60''" by code_simp+
  note inst = month_labels_first_occurrence[OF ps pe s e le y, of "''donken''",
      unfolded wd cv nv ix fv]
  from inst obtain ls post where
    1: "renderCalendarSVG ?p ''donken'' =
        Inr (''<?xml version=\"1.0\" encoding=\"UTF-8\"?>'' @ [CHR 0x0A]
             @ ''<svg xmlns=\"http://www.w3.org/2000/svg\" width=\"''
             @ show_int (44 + 16 * ((13 + 6) div 7))
             @ ''\" height=\"142\" viewBox=\"0 0 '' @ show_int (44 + 16 * ((13 + 6) div 7))
             @ '' 142\" role=\"img\" aria-label=\"Combined contributions calendar for ''
             @ ''donken'' @ ''\">'' @ [CHR 0x0A]
             @ ''  <rect width=\"100%\" height=\"100%\" fill=\"transparent\"/>'' @ [CHR 0x0A]
             @ ''  <!-- Month labels -->'' @ [CHR 0x0A]
             @ ''  '' @ concat ls @ [CHR 0x0A]
             @ ''  <!-- Weekday labels -->'' @ post)"
    and 2: "monthPositions_of (Some 1705795200000) (Some 13) =
          Inr (map (\<lambda>i. (month_key_at (Some 1705795200000) i, i div 7)) [0, 11])"
    and 3: "length ls = length [0::int, 11]"
    and 4: "\<forall>k. k < length [0::int, 11] \<longrightarrow>
          ls ! k =
            ''<text x=\"'' @ show_int (44 + 16 * ([0, 11] ! k div 7))
            @ ''\" y=\"16\" font-family=\"Arial, Helvetica, sans-serif\" font-size=\"11\" fill=\"#6a737d\">''
            @ monthNames ! nat (MonthFromTime (1705795200000 + [0, 11] ! k * msPerDay))
            @ ''</text>'' @ [CHR 0x0A]"
    by blast
  have l0: "ls ! 0 =
      ''<text x=\"44\" y=\"16\" font-family=\"Arial, Helvetica, sans-serif\" font-size=\"11\" fill=\"#6a737d\">Jan</text>''
      @ [CHR 0x0A]"
    using 4[rule_format, of 0] by (simp add: m0 names nums)
  have l1: "ls ! 1 =
      ''<text x=\"60\" y=\"16\" font-family=\"Arial, Helvetica, sans-serif\" font-size=\"11\" fill=\"#6a737d\">Feb</text>''
      @ [CHR 0x0A]"
    using 4[rule_format, of 1] by (simp add: m11 names nums)
  from 3 have "length ls = 2" by simp
  then have "ls = [ls ! 0, ls ! 1]"
    by (cases ls; cases "tl ls") auto
  then have c: "concat ls = ls ! 0 @ ls ! 1" by (metis concat.simps append_Nil2)
  have doc: "\<exists>post. renderCalendarSVG ?p ''donken'' =
        Inr (''<?xml version=\"1.0\" encoding=\"UTF-8\"?>'' @ [CHR 0x0A]
             @ ''<svg xmlns=\"http://www.w3.org/2000/svg\" width=\"76\" height=\"142\" viewBox=\"0 0 76 142\" role=\"img\" aria-label=\"Combined contributions calendar for donken\">''
             @ [CHR 0x0A]
             @ ''  <rect width=\"100%\" height=\"100%\" fill=\"transparent\"/>'' @ [CHR 0x0A]
             @ ''  <!-- Month labels -->'' @ [CHR 0x0A]
             @ ''  <text x=\"44\" y=\"16\" font-family=\"Arial, Helvetica, sans-serif\" font-size=\"11\" fill=\"#6a737d\">Jan</text>''
             @ [CHR 0x0A]
             @ ''<text x=\"60\" y=\"16\" font-family=\"Arial, Helvetica, sans-serif\" font-size=\"11\" fill=\"#6a737d\">Feb</text>''
             @ [CHR 0x0A] @ [CHR 0x0A]
             @ ''  <!-- Weekday labels -->'' @ post)"
    unfolding 1 c l0 l1 by (simp add: nums)
  have mpv: "monthPositions_of (Some 1705795200000) (Some 13) =
      Inr [(''2024-01'', 0), (''2024-02'', 1)]"
    unfolding 2 by (simp add: k0 k11)
  show ?thesis by (intro conjI s e y fv k10 k11 mpv doc)
qed

end
